theory Spec2Isabelle
  imports Main "HOL-Library.Word"
begin

unbundle bit_operations_syntax

section \<open>ASIX SIGMA driver core: data model\<close>

text \<open>
  A shallow embedding of \<^verbatim>\<open>src/hardware/asix-sigma/protocol.c\<close>. Fixed-width C
  integers are words; \<^verbatim>\<open>int\<close> loop counters and indices that stay small are
  naturals. A function that changes the device context returns the new context beside
  its result.
\<close>

type_synonym u8 = "8 word"
type_synonym u16 = "16 word"
type_synonym u32 = "32 word"
type_synonym u64 = "64 word"

text \<open>
  Modelled from the spec: the macros \<^verbatim>\<open>SR_KHZ\<close> and \<^verbatim>\<open>SR_MHZ\<close> of libsigrok.h are
  not part of the source file; the spec lists the table as 200 kHz, 250 kHz, 500 kHz,
  1, 5, 10, 25, 50, 100 and 200 MHz, so the macros scale by a thousand and a million.
\<close>

definition SR_KHZ :: "u64 \<Rightarrow> u64" where
  "SR_KHZ n = n * 1000"

definition SR_MHZ :: "u64 \<Rightarrow> u64" where
  "SR_MHZ n = n * 1000000"

definition samplerates :: "u64 list" where
  "samplerates =
     [SR_KHZ 200, SR_KHZ 250, SR_KHZ 500, SR_MHZ 1, SR_MHZ 5,
      SR_MHZ 10, SR_MHZ 25, SR_MHZ 50, SR_MHZ 100, SR_MHZ 200]"

definition samplerates_count :: nat where
  "samplerates_count = length samplerates"

definition firmware_files :: "string list" where
  "firmware_files =
     [''asix-sigma-50.fw'', ''asix-sigma-100.fw'', ''asix-sigma-200.fw'',
      ''asix-sigma-50sync.fw'', ''asix-sigma-phasor.fw'']"

definition SIGMA_FIRMWARE_SIZE_LIMIT :: nat where
  "SIGMA_FIRMWARE_SIZE_LIMIT = 256 * 1024"

text \<open>
  The integer results of the driver functions. The \<^verbatim>\<open>SR_*\<close> codes are libsigrok's;
  \<open>FTDI_CODE n\<close> is a result of the cable library handed on unchanged (a byte count, or
  a negative error code).
\<close>

datatype sr_error_code =
    SR_OK
  | SR_ERR
  | SR_ERR_MALLOC
  | SR_ERR_BUG
  | SR_ERR_SAMPLERATE
  | SR_ERR_TIMEOUT
  | SR_ERR_IO
  | FTDI_CODE int

subsection \<open>The cable\<close>

text \<open>
  Modelled from the spec: the byte link is an external collaborator with the verbs
  write, read, purge, set-bitmode and set-baudrate. A context records every call made
  (oldest first) and holds the cable's behaviour: the status it returns to a call and the
  bytes it delivers to a read, both as functions of the calls made so far, the current
  one included. A read with a negative status leaves the buffer alone; otherwise the
  delivered bytes, at most the requested number, overwrite the front of the buffer and
  their count is the result.
\<close>

datatype ftdi_mpsse_mode = BITMODE_RESET | BITMODE_BITBANG

datatype ftdi_call =
    FTDI_WRITE "u8 list"
  | FTDI_READ nat
  | FTDI_PURGE
  | FTDI_SET_BITMODE u8 ftdi_mpsse_mode
  | FTDI_SET_BAUDRATE nat

record ftdi_context =
  calls :: "ftdi_call list"
  status :: "ftdi_call list \<Rightarrow> int"
  rx :: "ftdi_call list \<Rightarrow> u8 list"

definition ftdi_call_status :: "ftdi_context \<Rightarrow> ftdi_call \<Rightarrow> int \<times> ftdi_context" where
  "ftdi_call_status f c =
     (let h = calls f @ [c] in (status f h, f\<lparr>calls := h\<rparr>))"

definition ftdi_write_data :: "ftdi_context \<Rightarrow> u8 list \<Rightarrow> int \<times> ftdi_context" where
  "ftdi_write_data f buf = ftdi_call_status f (FTDI_WRITE buf)"

definition ftdi_set_bitmode ::
  "ftdi_context \<Rightarrow> u8 \<Rightarrow> ftdi_mpsse_mode \<Rightarrow> int \<times> ftdi_context" where
  "ftdi_set_bitmode f pins m = ftdi_call_status f (FTDI_SET_BITMODE pins m)"

definition ftdi_set_baudrate :: "ftdi_context \<Rightarrow> nat \<Rightarrow> int \<times> ftdi_context" where
  "ftdi_set_baudrate f baud = ftdi_call_status f (FTDI_SET_BAUDRATE baud)"

definition ftdi_usb_purge_buffers :: "ftdi_context \<Rightarrow> int \<times> ftdi_context" where
  "ftdi_usb_purge_buffers f = ftdi_call_status f FTDI_PURGE"

definition ftdi_read_data ::
  "ftdi_context \<Rightarrow> u8 list \<Rightarrow> nat \<Rightarrow> int \<times> u8 list \<times> ftdi_context" where
  "ftdi_read_data f buf n =
     (let h = calls f @ [FTDI_READ n];
          f' = f\<lparr>calls := h\<rparr>;
          d = take n (rx f h)
      in if status f h < 0 then (status f h, buf, f')
         else (int (length d), d @ drop (length d) buf, f'))"

subsection \<open>The device context\<close>

record sigma_trigger =
  risingmask :: u16
  fallingmask :: u16
  simplemask :: u16
  simplevalue :: u16

datatype sigma_state_enum = SIGMA_IDLE | SIGMA_CAPTURE | SIGMA_STOPPING | SIGMA_DOWNLOAD

text \<open>\<^verbatim>\<open>struct sigma_state\<close>; its field \<^verbatim>\<open>state\<close> is \<open>st\<close> here, since the device
  context has a field \<^verbatim>\<open>state\<close> of its own.\<close>

record sigma_state =
  st :: sigma_state_enum
  lastts :: u16
  lastsample :: u16

record dev_context =
  ftdic :: ftdi_context
  cur_samplerate :: u64
  limit_msec :: u64
  limit_samples :: u64
  cur_firmware :: int
  num_channels :: int
  samples_per_event :: int
  trigger :: sigma_trigger
  state :: sigma_state

text \<open>
  What the functions take from outside the device: the firmware files on disk, whether
  an allocation of a given size succeeds, and the indeterminate content of automatic
  storage that the source reads before writing it.
\<close>

record sr_context =
  firmware_resources :: "string \<Rightarrow> u8 list option"
  malloc_ok :: "nat \<Rightarrow> bool"
  uninit :: u8

text \<open>
  The command opcodes and register numbers of protocol.h, which is not part of the
  source file: they are parameters of every function that uses them.
\<close>

record sigma_protocol =
  REG_ADDR_LOW :: u8
  REG_ADDR_HIGH :: u8
  REG_DATA_LOW :: u8
  REG_DATA_HIGH_WRITE :: u8
  REG_READ_ADDR :: u8
  REG_ADDR_INC :: u8
  READ_ID :: u8
  READ_TRIGGER_POS_LOW :: u8
  WRITE_MODE :: u8
  WRITE_TEST :: u8
  WMR_SDRAMINIT :: u8

section \<open>Register transport\<close>

definition sigma_read ::
  "u8 list \<Rightarrow> nat \<Rightarrow> dev_context \<Rightarrow> int \<times> u8 list \<times> dev_context" where
  "sigma_read buf n devc =
     (case ftdi_read_data (ftdic devc) buf n of
        (ret, buf', f) \<Rightarrow> (ret, buf', devc\<lparr>ftdic := f\<rparr>))"

text \<open>\<open>sigma_write buf devc\<close> sends the bytes \<open>buf\<close> (the first \<^verbatim>\<open>size\<close> bytes of the
  source's buffer).\<close>

definition sigma_write :: "u8 list \<Rightarrow> dev_context \<Rightarrow> int \<times> dev_context" where
  "sigma_write buf devc =
     (case ftdi_write_data (ftdic devc) buf of
        (ret, f) \<Rightarrow> (ret, devc\<lparr>ftdic := f\<rparr>))"

text \<open>The loop of \<^verbatim>\<open>sigma_write_register\<close>: two command bytes per data byte, appended
  to the scratch buffer.\<close>

fun write_register_loop :: "sigma_protocol \<Rightarrow> u8 list \<Rightarrow> u8 list \<Rightarrow> u8 list" where
  "write_register_loop p [] buf = buf"
| "write_register_loop p (d # ds) buf =
     write_register_loop p ds
       (buf @ [REG_DATA_LOW p OR (d AND 0xf), REG_DATA_HIGH_WRITE p OR drop_bit 4 d])"

text \<open>\<^verbatim>\<open>len\<close> is the length of the data; \<^verbatim>\<open>2 * len + 2\<close> is computed in
  \<^verbatim>\<open>size_t\<close> (64 bits) and compared with the 80 bytes of the scratch buffer.\<close>

definition sigma_write_register ::
  "sigma_protocol \<Rightarrow> u8 \<Rightarrow> u8 list \<Rightarrow> dev_context \<Rightarrow> sr_error_code \<times> dev_context" where
  "sigma_write_register p reg data devc =
     (let len = length data in
      if (2 * len + 2) mod 2 ^ 64 > 80 then (SR_ERR_BUG, devc)
      else
        let buf = [REG_ADDR_LOW p OR (reg AND 0xf), REG_ADDR_HIGH p OR drop_bit 4 reg];
            buf = write_register_loop p data buf
        in case sigma_write buf devc of (ret, devc') \<Rightarrow> (FTDI_CODE ret, devc'))"

definition sigma_set_register ::
  "sigma_protocol \<Rightarrow> u8 \<Rightarrow> u8 \<Rightarrow> dev_context \<Rightarrow> sr_error_code \<times> dev_context" where
  "sigma_set_register p reg v devc = sigma_write_register p reg [v] devc"

text \<open>The position adjustment at the end of \<^verbatim>\<open>sigma_read_pos\<close>:
  \<^verbatim>\<open>if ((--*pos & 0x1ff) == 0x1ff) *pos -= 64;\<close> on a \<^verbatim>\<open>uint32_t\<close>.\<close>

definition adjust_pos :: "u32 \<Rightarrow> u32" where
  "adjust_pos pos =
     (let pos = pos - 1 in
      if pos AND 0x1ff = 0x1ff then pos - 64 else pos)"

text \<open>\<open>result0\<close> is the content of the array \<^verbatim>\<open>result[6]\<close> before the read. The
  function returns 1, the stop position and the trigger position.\<close>

definition sigma_read_pos ::
  "sigma_protocol \<Rightarrow> u8 list \<Rightarrow> dev_context \<Rightarrow> int \<times> u32 \<times> u32 \<times> dev_context" where
  "sigma_read_pos p result0 devc =
     (let buf = [REG_ADDR_LOW p OR READ_TRIGGER_POS_LOW p,
                 REG_READ_ADDR p OR REG_ADDR_INC p,
                 REG_READ_ADDR p OR REG_ADDR_INC p,
                 REG_READ_ADDR p OR REG_ADDR_INC p,
                 REG_READ_ADDR p OR REG_ADDR_INC p,
                 REG_READ_ADDR p OR REG_ADDR_INC p,
                 REG_READ_ADDR p OR REG_ADDR_INC p]
      in case sigma_write buf devc of (_, devc1) \<Rightarrow>
         case sigma_read result0 6 devc1 of (_, result, devc2) \<Rightarrow>
           let triggerpos = ucast (result ! 0) OR push_bit 8 (ucast (result ! 1))
                              OR push_bit 16 (ucast (result ! 2));
               stoppos = ucast (result ! 3) OR push_bit 8 (ucast (result ! 4))
                              OR push_bit 16 (ucast (result ! 5));
               stoppos = adjust_pos stoppos;
               triggerpos = adjust_pos triggerpos
           in (1, stoppos, triggerpos, devc2))"

section \<open>FPGA loader\<close>

definition BB_PIN_CCLK :: u8 where "BB_PIN_CCLK = push_bit 0 1"
definition BB_PIN_PROG :: u8 where "BB_PIN_PROG = push_bit 1 1"
definition BB_PIN_D2 :: u8 where "BB_PIN_D2 = push_bit 2 1"
definition BB_PIN_D3 :: u8 where "BB_PIN_D3 = push_bit 3 1"
definition BB_PIN_D4 :: u8 where "BB_PIN_D4 = push_bit 4 1"
definition BB_PIN_INIT :: u8 where "BB_PIN_INIT = push_bit 5 1"
definition BB_PIN_DIN :: u8 where "BB_PIN_DIN = push_bit 6 1"
definition BB_PIN_D7 :: u8 where "BB_PIN_D7 = push_bit 7 1"

definition BB_BITRATE :: nat where "BB_BITRATE = 750 * 1000"
definition BB_PINMASK :: u8 where "BB_PINMASK = 0xff AND NOT BB_PIN_INIT"

text \<open>The wait for INIT_B in \<^verbatim>\<open>sigma_fpga_init_bitbang\<close>: \<^verbatim>\<open>while (retries--)\<close>,
  with the byte \<^verbatim>\<open>data\<close> carried from one read to the next (a read that delivers
  nothing leaves it as it was).\<close>

fun init_b_loop :: "nat \<Rightarrow> u8 \<Rightarrow> dev_context \<Rightarrow> sr_error_code \<times> dev_context" where
  "init_b_loop 0 data devc = (SR_ERR_TIMEOUT, devc)"
| "init_b_loop (Suc retries) data devc =
     (case sigma_read [data] 1 devc of
        (ret, buf, devc') \<Rightarrow>
          if ret < 0 then (FTDI_CODE ret, devc')
          else if hd buf AND BB_PIN_INIT \<noteq> 0 then (SR_OK, devc')
          else init_b_loop retries (hd buf) devc')"

text \<open>\<open>data0\<close> is the content of the local \<^verbatim>\<open>data\<close> before the first read.\<close>

definition sigma_fpga_init_bitbang :: "u8 \<Rightarrow> dev_context \<Rightarrow> sr_error_code \<times> dev_context" where
  "sigma_fpga_init_bitbang data0 devc =
     (let suicide = [BB_PIN_D7 OR BB_PIN_D2, BB_PIN_D7 OR BB_PIN_D2,
                     BB_PIN_D7 OR BB_PIN_D3, BB_PIN_D7 OR BB_PIN_D2,
                     BB_PIN_D7 OR BB_PIN_D3, BB_PIN_D7 OR BB_PIN_D2,
                     BB_PIN_D7 OR BB_PIN_D3, BB_PIN_D7 OR BB_PIN_D2];
          init_array = [BB_PIN_CCLK, BB_PIN_CCLK OR BB_PIN_PROG, BB_PIN_CCLK OR BB_PIN_PROG,
                        BB_PIN_CCLK, BB_PIN_CCLK, BB_PIN_CCLK, BB_PIN_CCLK,
                        BB_PIN_CCLK, BB_PIN_CCLK, BB_PIN_CCLK];
          devc = snd (sigma_write suicide devc);
          devc = snd (sigma_write suicide devc);
          devc = snd (sigma_write suicide devc);
          devc = snd (sigma_write suicide devc);
          devc = snd (sigma_write init_array devc);
          devc = devc\<lparr>ftdic := snd (ftdi_usb_purge_buffers (ftdic devc))\<rparr>
      in init_b_loop 10 data0 devc)"

text \<open>\<open>result0\<close> is the content of the array \<^verbatim>\<open>result[3]\<close> before the read.\<close>

definition sigma_fpga_init_la ::
  "sigma_protocol \<Rightarrow> u8 list \<Rightarrow> dev_context \<Rightarrow> sr_error_code \<times> dev_context" where
  "sigma_fpga_init_la p result0 devc =
     (let mode_regval = WMR_SDRAMINIT p;
          logic_mode_start =
            [REG_ADDR_LOW p OR (READ_ID p AND 0xf),
             REG_ADDR_HIGH p OR drop_bit 4 (READ_ID p),
             REG_READ_ADDR p,
             REG_ADDR_LOW p OR (WRITE_TEST p AND 0xf),
             REG_DATA_LOW p OR 0x5,
             REG_DATA_HIGH_WRITE p OR 0x5,
             REG_READ_ADDR p,
             REG_DATA_LOW p OR 0xa,
             REG_DATA_HIGH_WRITE p OR 0xa,
             REG_READ_ADDR p,
             REG_ADDR_LOW p OR (WRITE_MODE p AND 0xf),
             REG_DATA_LOW p OR (mode_regval AND 0xf),
             REG_DATA_HIGH_WRITE p OR drop_bit 4 mode_regval]
      in case sigma_write logic_mode_start devc of (_, devc1) \<Rightarrow>
         case sigma_read result0 3 devc1 of (ret, result, devc2) \<Rightarrow>
           if ret \<noteq> 3 then (SR_ERR, devc2)
           else if result ! 0 \<noteq> 0xa6 \<or> result ! 1 \<noteq> 0x55 \<or> result ! 2 \<noteq> 0xaa
             then (SR_ERR, devc2)
           else (SR_OK, devc2))"

text \<open>
  Modelled from the spec: \<^verbatim>\<open>sr_resource_load\<close> belongs to libsigrok's resource layer,
  which is not part of the source file. The spec has it load the firmware blob with a
  cap of 256 KiB: a file that is missing or larger than the cap is not loaded.
\<close>

definition sr_resource_load :: "sr_context \<Rightarrow> string \<Rightarrow> nat \<Rightarrow> u8 list option" where
  "sr_resource_load ctx name max_size =
     (case firmware_resources ctx name of
        None \<Rightarrow> None
      | Some fw \<Rightarrow> if length fw > max_size then None else Some fw)"

text \<open>One step of the descrambling sequence, in \<^verbatim>\<open>uint32_t\<close> arithmetic.\<close>

definition scramble_next :: "u32 \<Rightarrow> u32" where
  "scramble_next imm = (imm + 0xa853753) mod 177 + (imm * 0x8034052)"

text \<open>The first loop of \<^verbatim>\<open>sigma_fw_2_bitbang\<close>: the state is stepped, then the byte is
  XORed with its low 8 bits.\<close>

fun unscramble :: "u32 \<Rightarrow> u8 list \<Rightarrow> u8 list" where
  "unscramble imm [] = []"
| "unscramble imm (b # bs) =
     (let imm = scramble_next imm
      in (b XOR ucast (imm AND 0xff)) # unscramble imm bs)"

text \<open>The inner loop \<^verbatim>\<open>while (mask)\<close>: two samples per bit, the mask (\<open>msk\<close>) moving
  from bit 7 down.\<close>

function bitbang_byte :: "u8 \<Rightarrow> u8 \<Rightarrow> u8 list" where
  "bitbang_byte byte msk =
     (if msk \<noteq> 0 then
        let v = (if byte AND msk \<noteq> 0 then BB_PIN_DIN else 0);
            msk = drop_bit 1 msk
        in [v OR BB_PIN_CCLK, v] @ bitbang_byte byte msk
      else [])"
  by pat_completeness auto
termination
proof (relation "measure (\<lambda>(byte, msk). unat msk)")
  show "wf (measure (\<lambda>(byte, msk). unat msk))"
    by simp
next
  fix byte msk x :: u8 and xa :: u8
  assume "msk \<noteq> 0" and "xa = drop_bit 1 msk"
  have "unat (drop_bit 1 msk) = unat msk div 2"
    by (simp add: drop_bit_eq_div unat_div)
  moreover have "unat msk \<noteq> 0"
    using \<open>msk \<noteq> 0\<close> by (simp add: unat_eq_0)
  ultimately show "((byte, xa), (byte, msk)) \<in> measure (\<lambda>(byte, msk). unat msk)"
    using \<open>xa = drop_bit 1 msk\<close> by simp
qed

declare bitbang_byte.simps [simp del]

text \<open>The outer loop over the firmware bytes.\<close>

fun bitbang_stream :: "u8 list \<Rightarrow> u8 list" where
  "bitbang_stream [] = []"
| "bitbang_stream (byte # bs) = bitbang_byte byte 0x80 @ bitbang_stream bs"

text \<open>The result is the error code, or the bitbang stream (whose length is
  \<^verbatim>\<open>bb_cmd_size\<close>) with \<^verbatim>\<open>SR_OK\<close>.\<close>

definition sigma_fw_2_bitbang :: "sr_context \<Rightarrow> string \<Rightarrow> sr_error_code + u8 list" where
  "sigma_fw_2_bitbang ctx name =
     (case sr_resource_load ctx name SIGMA_FIRMWARE_SIZE_LIMIT of
        None \<Rightarrow> Inl SR_ERR_IO
      | Some firmware \<Rightarrow>
          let file_size = length firmware;
              firmware = unscramble 0x3f6df2ab firmware;
              bb_size = file_size * 8 * 2
          in if \<not> malloc_ok ctx bb_size then Inl SR_ERR_MALLOC
             else Inr (bitbang_stream firmware))"

text \<open>The loop \<^verbatim>\<open>while (sigma_read(&pins, 1, devc) == 1);\<close> runs for as long as
  the cable delivers a byte.\<close>

partial_function (option) drain_pending :: "u8 list \<Rightarrow> dev_context \<Rightarrow> dev_context option" where
  "drain_pending pins devc =
     (case sigma_read pins 1 devc of
        (ret, pins', devc') \<Rightarrow>
          if ret = 1 then drain_pending pins' devc' else Some devc')"

text \<open>\<^verbatim>\<open>upload_firmware\<close>: \<open>None\<close> when the drain loop never ends.\<close>

definition upload_firmware ::
  "sigma_protocol \<Rightarrow> sr_context \<Rightarrow> int \<Rightarrow> dev_context \<Rightarrow> (sr_error_code \<times> dev_context) option" where
  "upload_firmware p ctx firmware_idx devc =
     (let firmware = firmware_files ! nat firmware_idx in
      if cur_firmware devc = firmware_idx then Some (SR_OK, devc)
      else
        case ftdi_set_bitmode (ftdic devc) BB_PINMASK BITMODE_BITBANG of (ret, f) \<Rightarrow>
        let devc = devc\<lparr>ftdic := f\<rparr> in
        if ret < 0 then Some (SR_ERR, devc)
        else
          case ftdi_set_baudrate (ftdic devc) BB_BITRATE of (ret, f) \<Rightarrow>
          let devc = devc\<lparr>ftdic := f\<rparr> in
          if ret < 0 then Some (SR_ERR, devc)
          else
            case sigma_fpga_init_bitbang (uninit ctx) devc of (ret, devc) \<Rightarrow>
            if ret \<noteq> SR_OK then Some (ret, devc)
            else
              case sigma_fw_2_bitbang ctx firmware of
                Inl ret \<Rightarrow> Some (ret, devc)
              | Inr buf \<Rightarrow>
                  let devc = snd (sigma_write buf devc) in
                  case ftdi_set_bitmode (ftdic devc) 0 BITMODE_RESET of (ret, f) \<Rightarrow>
                  let devc = devc\<lparr>ftdic := f\<rparr> in
                  if ret < 0 then Some (SR_ERR, devc)
                  else
                    let devc = devc\<lparr>ftdic := snd (ftdi_usb_purge_buffers (ftdic devc))\<rparr> in
                    case drain_pending [uninit ctx] devc of
                      None \<Rightarrow> None
                    | Some devc \<Rightarrow>
                        case sigma_fpga_init_la p (replicate 3 (uninit ctx)) devc of
                          (ret, devc) \<Rightarrow>
                            if ret \<noteq> SR_OK then Some (ret, devc)
                            else Some (SR_OK, devc\<lparr>cur_firmware := firmware_idx\<rparr>))"

section \<open>Samplerate and channel policy\<close>

definition sigma_limit_samples_to_msec :: "dev_context \<Rightarrow> u64 \<Rightarrow> u64" where
  "sigma_limit_samples_to_msec devc limit_samples' =
     (let limit_msec = limit_samples' * 1000 div cur_samplerate devc;
          worst_cluster_time_ms = 65536 * 1000 div cur_samplerate devc
      in limit_msec + 2 * worst_cluster_time_ms)"

text \<open>The search of the table: the index of the first entry equal to the rate, or
  \<open>samplerates_count\<close>.\<close>

function find_samplerate :: "nat \<Rightarrow> u64 \<Rightarrow> nat" where
  "find_samplerate i samplerate =
     (if i < samplerates_count then
        (if samplerates ! i = samplerate then i else find_samplerate (i + 1) samplerate)
      else i)"
  by pat_completeness auto
termination
  by (relation "measure (\<lambda>(i, samplerate). samplerates_count - i)") simp_all

declare find_samplerate.simps [simp del]

text \<open>\<^verbatim>\<open>sigma_set_samplerate\<close>. The division \<^verbatim>\<open>16 / devc->num_channels\<close> is C's on
  \<^verbatim>\<open>int\<close>; the divisor is 16, 8 or 4 for every rate of the table.\<close>

definition sigma_set_samplerate ::
  "sigma_protocol \<Rightarrow> sr_context \<Rightarrow> u64 \<Rightarrow> dev_context \<Rightarrow> (sr_error_code \<times> dev_context) option" where
  "sigma_set_samplerate p ctx samplerate devc =
     (let i = find_samplerate 0 samplerate in
      if i \<ge> samplerates_count \<or> samplerates ! i = 0 then Some (SR_ERR_SAMPLERATE, devc)
      else
        case (if samplerate \<le> SR_MHZ 50 then
                map_option (\<lambda>r. (r, 16)) (upload_firmware p ctx 0 devc)
              else if samplerate = SR_MHZ 100 then
                map_option (\<lambda>r. (r, 8)) (upload_firmware p ctx 1 devc)
              else if samplerate = SR_MHZ 200 then
                map_option (\<lambda>r. (r, 4)) (upload_firmware p ctx 2 devc)
              else Some ((SR_OK, devc), num_channels devc)) of
          None \<Rightarrow> None
        | Some ((ret, devc), num_channels') \<Rightarrow>
            let devc =
                  (if ret = SR_OK then
                     devc\<lparr>num_channels := num_channels',
                          cur_samplerate := samplerate,
                          samples_per_event := 16 div num_channels',
                          state := (state devc)\<lparr>st := SIGMA_IDLE\<rparr>\<rparr>
                   else devc);
                devc =
                  (if ret = SR_OK \<and> limit_samples devc \<noteq> 0 then
                     devc\<lparr>limit_msec := sigma_limit_samples_to_msec devc (limit_samples devc)\<rparr>
                   else devc)
            in Some (ret, devc))"

section \<open>Trigger compiler\<close>

text \<open>
  Modelled from the spec: the trigger model of libsigrok.h (stages of per-channel
  matches) is not part of the source file. The spec names the matches ONE, ZERO, RISING
  and FALLING; the remaining kinds of the library fall through every test of the source.
  A channel has an index and may be disabled.
\<close>

datatype sr_trigger_matches =
    SR_TRIGGER_ZERO
  | SR_TRIGGER_ONE
  | SR_TRIGGER_RISING
  | SR_TRIGGER_FALLING
  | SR_TRIGGER_EDGE
  | SR_TRIGGER_OVER
  | SR_TRIGGER_UNDER

record sr_channel =
  index :: nat
  enabled :: bool

record sr_trigger_match =
  channel :: sr_channel
  match :: sr_trigger_matches

record sr_trigger_stage =
  matches :: "sr_trigger_match list"

record sr_trigger =
  stages :: "sr_trigger_stage list"

text \<open>The body of the inner loop of \<^verbatim>\<open>sigma_convert_trigger\<close> for one match, on the
  trigger being built and the counter \<^verbatim>\<open>trigger_set\<close>: \<open>Some e\<close> is \<^verbatim>\<open>return e\<close>,
  \<open>None\<close> goes on with the next match. \<^verbatim>\<open>channelbit\<close> is an \<^verbatim>\<open>int\<close>, cut to 16 bits
  when it is stored in a mask.\<close>

definition convert_match ::
  "u64 \<Rightarrow> sr_trigger_match \<Rightarrow> sigma_trigger \<times> nat \<Rightarrow>
     sr_error_code option \<times> sigma_trigger \<times> nat" where
  "convert_match samplerate m s =
     (case s of (t, trigger_set) \<Rightarrow>
        if \<not> enabled (channel m) then (None, t, trigger_set)
        else
          let channelbit = (push_bit (index (channel m)) 1 :: u32) in
          if samplerate \<ge> SR_MHZ 100 then
            (if trigger_set \<noteq> 0 then (Some SR_ERR, t, trigger_set)
             else if match m = SR_TRIGGER_FALLING then
               (None, t\<lparr>fallingmask := fallingmask t OR ucast channelbit\<rparr>, trigger_set + 1)
             else if match m = SR_TRIGGER_RISING then
               (None, t\<lparr>risingmask := risingmask t OR ucast channelbit\<rparr>, trigger_set + 1)
             else (Some SR_ERR, t, trigger_set))
          else
            (case (if match m = SR_TRIGGER_ONE then
                     (t\<lparr>simplevalue := simplevalue t OR ucast channelbit,
                        simplemask := simplemask t OR ucast channelbit\<rparr>, trigger_set)
                   else if match m = SR_TRIGGER_ZERO then
                     (t\<lparr>simplevalue := simplevalue t AND ucast (NOT channelbit),
                        simplemask := simplemask t OR ucast channelbit\<rparr>, trigger_set)
                   else if match m = SR_TRIGGER_FALLING then
                     (t\<lparr>fallingmask := fallingmask t OR ucast channelbit\<rparr>, trigger_set + 1)
                   else if match m = SR_TRIGGER_RISING then
                     (t\<lparr>risingmask := risingmask t OR ucast channelbit\<rparr>, trigger_set + 1)
                   else (t, trigger_set)) of
               (t, trigger_set) \<Rightarrow>
                 if trigger_set > 1 then (Some SR_ERR, t, trigger_set)
                 else (None, t, trigger_set)))"

fun matches_loop ::
  "u64 \<Rightarrow> sr_trigger_match list \<Rightarrow> sigma_trigger \<times> nat \<Rightarrow>
     sr_error_code option \<times> sigma_trigger \<times> nat" where
  "matches_loop samplerate [] s = (None, s)"
| "matches_loop samplerate (m # ms) s =
     (case convert_match samplerate m s of
        (Some e, s') \<Rightarrow> (Some e, s')
      | (None, s') \<Rightarrow> matches_loop samplerate ms s')"

fun stages_loop ::
  "u64 \<Rightarrow> sr_trigger_stage list \<Rightarrow> sigma_trigger \<times> nat \<Rightarrow>
     sr_error_code option \<times> sigma_trigger \<times> nat" where
  "stages_loop samplerate [] s = (None, s)"
| "stages_loop samplerate (stage # l) s =
     (case matches_loop samplerate (matches stage) s of
        (Some e, s') \<Rightarrow> (Some e, s')
      | (None, s') \<Rightarrow> stages_loop samplerate l s')"

text \<open>The first argument is the result of \<^verbatim>\<open>sr_session_trigger_get\<close>: the session's
  trigger, if it has one.\<close>

definition sigma_convert_trigger ::
  "sr_trigger option \<Rightarrow> dev_context \<Rightarrow> sr_error_code \<times> dev_context" where
  "sigma_convert_trigger session_trigger devc =
     (let devc = devc\<lparr>trigger :=
                   \<lparr>risingmask = 0, fallingmask = 0, simplemask = 0, simplevalue = 0\<rparr>\<rparr>
      in case session_trigger of
           None \<Rightarrow> (SR_OK, devc)
         | Some trg \<Rightarrow>
             (case stages_loop (cur_samplerate devc) (stages trg) (trigger devc, 0) of
                (Some e, t, _) \<Rightarrow> (e, devc\<lparr>trigger := t\<rparr>)
              | (None, t, _) \<Rightarrow> (SR_OK, devc\<lparr>trigger := t\<rparr>)))"

text \<open>
  The quantities in which the trigger compiler's contract is stated: the matches of all
  stages in the order the loops visit them, the tally of rising and falling matches on enabled
  channels, and the channel bits of the enabled matches of one kind.
\<close>

definition all_matches :: "sr_trigger \<Rightarrow> sr_trigger_match list" where
  "all_matches trg = concat (map matches (stages trg))"

definition edge_tally :: "sr_trigger_match list \<Rightarrow> nat" where
  "edge_tally ms =
     length (filter (\<lambda>m. enabled (channel m) \<and>
                          (match m = SR_TRIGGER_RISING \<or> match m = SR_TRIGGER_FALLING)) ms)"

fun or_list :: "u16 list \<Rightarrow> u16" where
  "or_list [] = 0"
| "or_list (x # xs) = x OR or_list xs"

definition channel_bits :: "sr_trigger_matches \<Rightarrow> sr_trigger_match list \<Rightarrow> u16" where
  "channel_bits k ms =
     or_list (map (\<lambda>m. push_bit (index (channel m)) 1)
                (filter (\<lambda>m. enabled (channel m) \<and> match m = k) ms))"

text \<open>The relation between the state \<open>s\<close> with which the loops enter a list of matches
  and the result \<open>r\<close> with which they leave it, at a rate below 100 MHz.\<close>

definition loop_result ::
  "sr_trigger_match list \<Rightarrow> sigma_trigger \<times> nat \<Rightarrow>
     sr_error_code option \<times> sigma_trigger \<times> nat \<Rightarrow> bool" where
  "loop_result ms s r \<longleftrightarrow>
     (case s of (t, n) \<Rightarrow> case r of (e, t', n') \<Rightarrow>
        if n + edge_tally ms \<le> 1 then
          e = None \<and> n' = n + edge_tally ms \<and>
          risingmask t' = risingmask t OR channel_bits SR_TRIGGER_RISING ms \<and>
          fallingmask t' = fallingmask t OR channel_bits SR_TRIGGER_FALLING ms \<and>
          simplemask t' = simplemask t OR channel_bits SR_TRIGGER_ONE ms
                            OR channel_bits SR_TRIGGER_ZERO ms
        else e = Some SR_ERR)"

section \<open>Capture decoder\<close>

text \<open>The loop of \<^verbatim>\<open>get_trigger_offset\<close>; the result is the value of \<^verbatim>\<open>i\<close> when the
  loop is left, by \<^verbatim>\<open>break\<close> or at 8.\<close>

function get_trigger_offset_loop ::
  "nat \<Rightarrow> u8 list \<Rightarrow> u16 \<Rightarrow> u16 \<Rightarrow> sigma_trigger \<Rightarrow> nat" where
  "get_trigger_offset_loop i samples last_sample sample t =
     (if i < 8 then
        let last_sample = (if i > 0 then sample else last_sample);
            sample = ucast (samples ! (2 * i)) OR push_bit 8 (ucast (samples ! (2 * i + 1)))
        in if sample AND simplemask t \<noteq> simplevalue t then
             get_trigger_offset_loop (i + 1) samples last_sample sample t
           else if last_sample AND risingmask t \<noteq> 0 \<or>
                   sample AND risingmask t \<noteq> risingmask t then
             get_trigger_offset_loop (i + 1) samples last_sample sample t
           else if last_sample AND fallingmask t \<noteq> fallingmask t \<or>
                   sample AND fallingmask t \<noteq> 0 then
             get_trigger_offset_loop (i + 1) samples last_sample sample t
           else i
      else i)"
  by pat_completeness auto
termination
  by (relation "measure (\<lambda>(i, samples, last_sample, sample, t). 8 - i)") simp_all

declare get_trigger_offset_loop.simps [simp del]

definition get_trigger_offset :: "u8 list \<Rightarrow> u16 \<Rightarrow> sigma_trigger \<Rightarrow> nat" where
  "get_trigger_offset samples last_sample t =
     get_trigger_offset_loop 0 samples last_sample 0 t AND 0x7"

text \<open>
  The conditions of trigger pinpointing as the spec words them: sample \<open>i\<close> of the window
  (two bytes, low byte first), the sample before it (the last sample of the previous
  cluster for \<open>i = 0\<close>), and the three tests: (a) value/mask match, (b) the rising edges
  fire, (c) the falling edges fire.
\<close>

definition sample_at :: "u8 list \<Rightarrow> nat \<Rightarrow> u16" where
  "sample_at samples i = ucast (samples ! (2 * i)) OR push_bit 8 (ucast (samples ! (2 * i + 1)))"

definition previous_sample :: "u8 list \<Rightarrow> u16 \<Rightarrow> nat \<Rightarrow> u16" where
  "previous_sample samples last_sample i =
     (if i = 0 then last_sample else sample_at samples (i - 1))"

definition trigger_fires :: "sigma_trigger \<Rightarrow> u16 \<Rightarrow> u16 \<Rightarrow> bool" where
  "trigger_fires t last_sample sample \<longleftrightarrow>
     sample AND simplemask t = simplevalue t \<and>
     (last_sample AND risingmask t = 0 \<and> sample AND risingmask t = risingmask t) \<and>
     (last_sample AND fallingmask t = fallingmask t \<and> sample AND fallingmask t = 0)"

definition fires_at :: "u8 list \<Rightarrow> u16 \<Rightarrow> sigma_trigger \<Rightarrow> nat \<Rightarrow> bool" where
  "fires_at samples last_sample t i \<longleftrightarrow>
     trigger_fires t (previous_sample samples last_sample i) (sample_at samples i)"

definition sigma_deinterlace_100mhz_data :: "u16 \<Rightarrow> nat \<Rightarrow> u16" where
  "sigma_deinterlace_100mhz_data indata idx =
     (let indata = drop_bit idx indata;
          outdata = 0;
          outdata = outdata OR (drop_bit (0 * 2 - 0) indata AND push_bit 0 1);
          outdata = outdata OR (drop_bit (1 * 2 - 1) indata AND push_bit 1 1);
          outdata = outdata OR (drop_bit (2 * 2 - 2) indata AND push_bit 2 1);
          outdata = outdata OR (drop_bit (3 * 2 - 3) indata AND push_bit 3 1);
          outdata = outdata OR (drop_bit (4 * 2 - 4) indata AND push_bit 4 1);
          outdata = outdata OR (drop_bit (5 * 2 - 5) indata AND push_bit 5 1);
          outdata = outdata OR (drop_bit (6 * 2 - 6) indata AND push_bit 6 1);
          outdata = outdata OR (drop_bit (7 * 2 - 7) indata AND push_bit 7 1)
      in outdata)"

definition sigma_deinterlace_200mhz_data :: "u16 \<Rightarrow> nat \<Rightarrow> u16" where
  "sigma_deinterlace_200mhz_data indata idx =
     (let indata = drop_bit idx indata;
          outdata = 0;
          outdata = outdata OR (drop_bit (0 * 4 - 0) indata AND push_bit 0 1);
          outdata = outdata OR (drop_bit (1 * 4 - 1) indata AND push_bit 1 1);
          outdata = outdata OR (drop_bit (2 * 4 - 2) indata AND push_bit 2 1);
          outdata = outdata OR (drop_bit (3 * 4 - 3) indata AND push_bit 3 1)
      in outdata)"

section \<open>Trigger look-up tables\<close>

text \<open>The three loops of \<^verbatim>\<open>build_lut_entry\<close>, innermost first; \<open>e\<close> is the cell
  \<^verbatim>\<open>entry[i]\<close>, \<open>msk\<close> the argument \<^verbatim>\<open>mask\<close> and \<open>bt\<close> the local \<^verbatim>\<open>bit\<close>.\<close>

function lut_k_loop :: "nat \<Rightarrow> nat \<Rightarrow> nat \<Rightarrow> u16 \<Rightarrow> u16 \<Rightarrow> u16 \<Rightarrow> u16" where
  "lut_k_loop i j k value msk e =
     (if k < 4 then
        let bt = (push_bit (i * 4 + k) 1 :: u16);
            e = (if msk AND bt \<noteq> 0 \<and>
                    ((value AND bt = 0) \<noteq> (j AND push_bit k 1 = 0))
                 then e AND NOT (push_bit j 1) else e)
        in lut_k_loop i j (k + 1) value msk e
      else e)"
  by pat_completeness auto
termination
  by (relation "measure (\<lambda>(i, j, k, value, msk, e). 4 - k)") simp_all

declare lut_k_loop.simps [simp del]

function lut_j_loop :: "nat \<Rightarrow> nat \<Rightarrow> u16 \<Rightarrow> u16 \<Rightarrow> u16 \<Rightarrow> u16" where
  "lut_j_loop i j value msk e =
     (if j < 16 then lut_j_loop i (j + 1) value msk (lut_k_loop i j 0 value msk e)
      else e)"
  by pat_completeness auto
termination
  by (relation "measure (\<lambda>(i, j, value, msk, e). 16 - j)") simp_all

declare lut_j_loop.simps [simp del]

function lut_i_loop :: "nat \<Rightarrow> u16 \<Rightarrow> u16 \<Rightarrow> u16 list \<Rightarrow> u16 list" where
  "lut_i_loop i value msk entry =
     (if i < 4 then
        let entry = entry[i := 0xffff];
            entry = entry[i := lut_j_loop i 0 value msk (entry ! i)]
        in lut_i_loop (i + 1) value msk entry
      else entry)"
  by pat_completeness auto
termination
  by (relation "measure (\<lambda>(i, value, msk, entry). 4 - i)") simp_all

declare lut_i_loop.simps [simp del]

definition build_lut_entry :: "u16 \<Rightarrow> u16 \<Rightarrow> u16 list \<Rightarrow> u16 list" where
  "build_lut_entry value msk entry = lut_i_loop 0 value msk entry"

section \<open>Concrete inputs\<close>

text \<open>A cable that accepts every call with status 0 and never delivers a byte.\<close>

definition quiet_cable :: ftdi_context where
  "quiet_cable = \<lparr>calls = [], status = (\<lambda>h. 0), rx = (\<lambda>h. [])\<rparr>"

text \<open>A device context before any firmware is loaded: the lowest rate of the table, no
  firmware, no limits, an empty trigger.\<close>

definition scanned_devc :: "ftdi_context \<Rightarrow> dev_context" where
  "scanned_devc f =
     \<lparr>ftdic = f, cur_samplerate = SR_KHZ 200, limit_msec = 0, limit_samples = 0,
      cur_firmware = - 1, num_channels = 0, samples_per_event = 0,
      trigger = \<lparr>risingmask = 0, fallingmask = 0, simplemask = 0, simplevalue = 0\<rparr>,
      state = \<lparr>st = SIGMA_IDLE, lastts = 0, lastsample = 0\<rparr>\<rparr>"

text \<open>An assignment of the opcodes and register numbers: the opcode in the high nibble
  of a command byte.\<close>

definition plain_protocol :: sigma_protocol where
  "plain_protocol =
     \<lparr>REG_ADDR_LOW = 0x00, REG_ADDR_HIGH = 0x10, REG_DATA_LOW = 0x20,
      REG_DATA_HIGH_WRITE = 0x30, REG_READ_ADDR = 0x40, REG_ADDR_INC = 0x08,
      READ_ID = 0, READ_TRIGGER_POS_LOW = 1, WRITE_MODE = 3, WRITE_TEST = 15,
      WMR_SDRAMINIT = 0x80\<rparr>"

text \<open>A cable that answers every read with the same six bytes.\<close>

definition counter_cable :: ftdi_context where
  "counter_cable =
     \<lparr>calls = [], status = (\<lambda>h. 0),
      rx = (\<lambda>h. [0x00, 0x02, 0x00, 0x34, 0x12, 0x00])\<rparr>"

text \<open>A context whose only firmware file has two bytes; every allocation succeeds.\<close>

definition two_byte_ctx :: sr_context where
  "two_byte_ctx =
     \<lparr>firmware_resources = (\<lambda>name. if name = ''asix-sigma-50.fw'' then Some [0x00, 0xff] else None),
      malloc_ok = (\<lambda>n. True), uninit = 0\<rparr>"

text \<open>A context whose only firmware file has five zero bytes, so that the descrambled
  file is the key stream itself; every allocation succeeds.\<close>

definition five_byte_ctx :: sr_context where
  "five_byte_ctx =
     \<lparr>firmware_resources =
        (\<lambda>name. if name = ''asix-sigma-50.fw'' then Some [0x00, 0x00, 0x00, 0x00, 0x00] else None),
      malloc_ok = (\<lambda>n. True), uninit = 0\<rparr>"

text \<open>A trigger on channel 0 high, a window whose sample 2 is the first with channel 0
  high, and a window with every channel low.\<close>

definition level_trigger :: sigma_trigger where
  "level_trigger = \<lparr>risingmask = 0, fallingmask = 0, simplemask = 1, simplevalue = 1\<rparr>"

definition late_samples :: "u8 list" where
  "late_samples = [0, 0, 0, 0, 1, 0, 0, 0, 0, 0, 0, 0, 0, 0, 0, 0]"

definition flat_samples :: "u8 list" where
  "flat_samples = [0, 0, 0, 0, 0, 0, 0, 0, 0, 0, 0, 0, 0, 0, 0, 0]"

text \<open>Two rising edges (channels 0 and 1), and a trigger with channel 0 high, channel 1
  low and one rising edge on channel 3.\<close>

definition two_edge_trigger :: sr_trigger where
  "two_edge_trigger =
     \<lparr>stages = [\<lparr>matches =
        [\<lparr>channel = \<lparr>index = 0, enabled = True\<rparr>, match = SR_TRIGGER_RISING\<rparr>,
         \<lparr>channel = \<lparr>index = 1, enabled = True\<rparr>, match = SR_TRIGGER_RISING\<rparr>]\<rparr>]\<rparr>"

definition one_edge_trigger :: sr_trigger where
  "one_edge_trigger =
     \<lparr>stages = [\<lparr>matches =
        [\<lparr>channel = \<lparr>index = 0, enabled = True\<rparr>, match = SR_TRIGGER_ONE\<rparr>,
         \<lparr>channel = \<lparr>index = 1, enabled = True\<rparr>, match = SR_TRIGGER_ZERO\<rparr>,
         \<lparr>channel = \<lparr>index = 3, enabled = True\<rparr>, match = SR_TRIGGER_RISING\<rparr>]\<rparr>]\<rparr>"

text \<open>A cable on which every call fails.\<close>

definition dead_cable :: ftdi_context where
  "dead_cable = \<lparr>calls = [], status = (\<lambda>h. - 1), rx = (\<lambda>h. [])\<rparr>"

text \<open>A cable with a device that configures: in bitbang mode a read shows INIT_B high,
  after the return to reset mode nothing is pending, and the three reads of the
  logic-analyzer handshake give the ID and the two scratch values.\<close>

definition willing_cable :: ftdi_context where
  "willing_cable =
     \<lparr>calls = [], status = (\<lambda>h. 0),
      rx = (\<lambda>h. if last h = FTDI_READ 3 then [0xa6, 0x55, 0xaa]
                 else if FTDI_SET_BITMODE 0 BITMODE_RESET \<in> set h then []
                 else [0x20])\<rparr>"

text \<open>Everything in the device context but the cable.\<close>

definition settings ::
  "dev_context \<Rightarrow> u64 \<times> u64 \<times> u64 \<times> int \<times> int \<times> int \<times> sigma_trigger \<times> sigma_state" where
  "settings d =
     (cur_samplerate d, limit_msec d, limit_samples d, cur_firmware d, num_channels d,
      samples_per_event d, trigger d, state d)"

section \<open>Properties\<close>

subsection \<open>Deinterleaving\<close>

lemma bit_pick:
  fixes w :: "'a::len word"
  shows "bit (drop_bit s w AND push_bit n 1) k \<longleftrightarrow> (k = n \<and> bit w (s + n))"
  by (auto simp add: bit_simps dest: bit_imp_le_length)

lemma deinterlace_100mhz_bit:
  "bit (sigma_deinterlace_100mhz_data x idx) k \<longleftrightarrow> k < 8 \<and> bit x (idx + 2 * k)"
proof -
  have e: "bit (sigma_deinterlace_100mhz_data x idx) k \<longleftrightarrow>
      (k = 0 \<and> bit x (idx + 0)) \<or> (k = 1 \<and> bit x (idx + 2)) \<or> (k = 2 \<and> bit x (idx + 4)) \<or>
      (k = 3 \<and> bit x (idx + 6)) \<or> (k = 4 \<and> bit x (idx + 8)) \<or> (k = 5 \<and> bit x (idx + 10)) \<or>
      (k = 6 \<and> bit x (idx + 12)) \<or> (k = 7 \<and> bit x (idx + 14))"
    apply (simp only: sigma_deinterlace_100mhz_data_def Let_def bit_or_iff bit_pick)
    apply (simp add: bit_drop_bit_eq add.commute)
    done
  show ?thesis
  proof (cases "k < 8")
    case True
    then consider "k = 0" | "k = 1" | "k = 2" | "k = 3" | "k = 4" | "k = 5" | "k = 6" | "k = 7"
      by arith
    then show ?thesis using e by cases simp_all
  next
    case False
    then show ?thesis by (simp add: e)
  qed
qed

lemma deinterlace_200mhz_bit:
  "bit (sigma_deinterlace_200mhz_data x idx) k \<longleftrightarrow> k < 4 \<and> bit x (idx + 4 * k)"
proof -
  have e: "bit (sigma_deinterlace_200mhz_data x idx) k \<longleftrightarrow>
      (k = 0 \<and> bit x (idx + 0)) \<or> (k = 1 \<and> bit x (idx + 4)) \<or> (k = 2 \<and> bit x (idx + 8)) \<or>
      (k = 3 \<and> bit x (idx + 12))"
    apply (simp only: sigma_deinterlace_200mhz_data_def Let_def bit_or_iff bit_pick)
    apply (simp add: bit_drop_bit_eq add.commute)
    done
  show ?thesis
  proof (cases "k < 4")
    case True
    then consider "k = 0" | "k = 1" | "k = 2" | "k = 3"
      by arith
    then show ?thesis using e by cases simp_all
  next
    case False
    then show ?thesis by (simp add: e)
  qed
qed

lemma low_bits_bound:
  fixes w :: u16
  assumes "\<And>k. bit w k \<Longrightarrow> k < n"
  shows "unat w < 2 ^ n"
proof -
  have "w AND mask n = w"
    by (rule bit_eqI) (auto simp add: bit_simps dest: assms)
  moreover have "uint (w AND mask n) < 2 ^ n"
    by (rule and_mask_lt_2p)
  ultimately have "uint w < 2 ^ n" by simp
  then have "int (unat w) < int (2 ^ n)" by simp
  then show ?thesis by (simp only: of_nat_less_iff)
qed

text \<open>
  C10: the deinterleave functions populate only the low channel bits. For every 16-bit
  item and every sub-index, \<^verbatim>\<open>sigma_deinterlace_100mhz_data\<close> returns a value below
  \<open>2 ^ 8\<close> whose bit \<open>k\<close> is bit \<open>idx + 2 * k\<close> of the item for \<open>k < 8\<close> and is clear for
  every other \<open>k\<close>; \<^verbatim>\<open>sigma_deinterlace_200mhz_data\<close> returns a value below \<open>2 ^ 4\<close>
  whose bit \<open>k\<close> is bit \<open>idx + 4 * k\<close> of the item for \<open>k < 4\<close> and is clear for every
  other \<open>k\<close>.
\<close>

theorem deinterlace_low_bits:
  "unat (sigma_deinterlace_100mhz_data indata idx) < 2 ^ 8 \<and>
   (bit (sigma_deinterlace_100mhz_data indata idx) k \<longleftrightarrow> k < 8 \<and> bit indata (idx + 2 * k)) \<and>
   unat (sigma_deinterlace_200mhz_data indata idx') < 2 ^ 4 \<and>
   (bit (sigma_deinterlace_200mhz_data indata idx') k' \<longleftrightarrow> k' < 4 \<and> bit indata (idx' + 4 * k'))"
proof -
  have "unat (sigma_deinterlace_100mhz_data indata idx) < 2 ^ 8"
    by (rule low_bits_bound) (simp_all add: deinterlace_100mhz_bit)
  moreover have "unat (sigma_deinterlace_200mhz_data indata idx') < 2 ^ 4"
    by (rule low_bits_bound) (simp_all add: deinterlace_200mhz_bit)
  ultimately show ?thesis
    by (simp only: deinterlace_100mhz_bit deinterlace_200mhz_bit simp_thms)
qed

subsection \<open>Sample limit as a time\<close>

lemma samplerates_cases:
  "r \<in> set samplerates \<longleftrightarrow>
     r = 200000 \<or> r = 250000 \<or> r = 500000 \<or> r = 1000000 \<or> r = 5000000 \<or>
     r = 10000000 \<or> r = 25000000 \<or> r = 50000000 \<or> r = 100000000 \<or> r = 200000000"
  by (auto simp add: samplerates_def SR_KHZ_def SR_MHZ_def)

lemma samplerates_ge: "r \<in> set samplerates \<Longrightarrow> 200000 \<le> unat r"
  unfolding samplerates_cases by auto

text \<open>
  C3, as the code has it: for every sample limit \<open>n\<close> and every rate \<open>r\<close> of the table,
  \<^verbatim>\<open>sigma_limit_samples_to_msec\<close> returns \<open>n * 1000 div r + 2 * (65536 * 1000 div r)\<close>,
  the product \<open>n * 1000\<close> taken in 64 bits: the worst cluster time is rounded down to
  whole milliseconds before it is doubled. For one sample at 200 kHz the result is 654
  milliseconds.
\<close>

theorem limit_samples_to_msec_value:
  assumes "cur_samplerate devc \<in> set samplerates"
  shows "unat (sigma_limit_samples_to_msec devc n) =
           (unat n * 1000 mod 2 ^ 64) div unat (cur_samplerate devc)
             + 2 * (65536 * 1000 div unat (cur_samplerate devc))"
proof -
  define r where "r = cur_samplerate devc"
  define a where "a = unat n * 1000 mod 2 ^ 64"
  have r: "200000 \<le> unat r"
    using assms by (simp add: r_def samplerates_ge)
  have a: "a < 2 ^ 64" by (simp add: a_def)
  have "unat (n * 1000) = a"
    by (simp add: a_def unat_word_ariths)
  then have m: "unat (n * 1000 div r) = a div unat r"
    by (simp add: unat_div)
  have w: "unat (65536 * 1000 div r) = 65536000 div unat r"
    by (simp add: unat_div)
  have "65536000 div unat r \<le> 65536000 div 200000"
    using r by (intro div_le_mono2) simp_all
  then have wb: "65536000 div unat r \<le> 327" by simp
  have "a div unat r \<le> a div 200000"
    using r by (intro div_le_mono2) simp_all
  then have ab: "a div unat r < 2 ^ 64 - 1000" using a by simp
  have w2: "unat (2 * (65536 * 1000 div r)) = 2 * (65536000 div unat r)"
    using wb by (simp add: unat_word_ariths w del: mult_numeral_left_semiring_numeral)
  have "unat (n * 1000 div r + 2 * (65536 * 1000 div r)) =
          (unat (n * 1000 div r) + unat (2 * (65536 * 1000 div r))) mod 2 ^ 64"
    by (simp add: unat_word_ariths(1))
  also have "\<dots> = (a div unat r + 2 * (65536000 div unat r)) mod 2 ^ 64"
    by (simp only: m w2)
  also have "\<dots> = a div unat r + 2 * (65536000 div unat r)"
    using ab wb by simp
  finally show ?thesis
    by (simp add: sigma_limit_samples_to_msec_def Let_def r_def a_def)
qed

theorem limit_samples_to_msec_witness:
  "cur_samplerate (scanned_devc quiet_cable) \<in> set samplerates \<and>
   unat (sigma_limit_samples_to_msec (scanned_devc quiet_cable) 1) = 654"
  using limit_samples_to_msec_value [of "scanned_devc quiet_cable" 1]
  by (simp add: scanned_devc_def samplerates_cases SR_KHZ_def)

text \<open>The code's result for one sample at 200 kHz beside the value of
  \<open>n * 1000 / r + 2 * 65536 * 1000 / r\<close> there.\<close>

theorem limit_samples_to_msec_counterexample:
  "sigma_limit_samples_to_msec (scanned_devc quiet_cable) 1 = 654 \<and>
   (1 * 1000 div 200000 + 2 * 65536 * 1000 div 200000 :: nat) = 655"
  by (simp add: sigma_limit_samples_to_msec_def scanned_devc_def SR_KHZ_def)

subsection \<open>Register writes\<close>

lemma write_register_loop_eq:
  "write_register_loop p data buf =
     buf @ concat (map (\<lambda>d. [REG_DATA_LOW p OR (d AND 0xf), REG_DATA_HIGH_WRITE p OR drop_bit 4 d]) data)"
  by (induction data arbitrary: buf) simp_all

text \<open>
  C5: for every register \<open>reg\<close> and data of \<open>N\<close> bytes (a buffer in memory, so that
  \<open>2 * N + 2\<close> does not wrap), when \<open>2 * N + 2\<close> fits the 80 bytes of the scratch buffer
  \<^verbatim>\<open>sigma_write_register\<close> makes one write to the cable, of exactly the bytes
  \<open>ADDR_LOW | reg_low_nibble\<close>, \<open>ADDR_HIGH | reg_high_nibble\<close>, then for each data byte in
  order \<open>DATA_LOW | low_nibble\<close>, \<open>DATA_HIGH_WRITE | high_nibble\<close>: \<open>2 + 2 * N\<close> bytes. When
  \<open>2 * N + 2\<close> exceeds the buffer it returns \<^verbatim>\<open>SR_ERR_BUG\<close> and the device context, the
  cable's record of calls included, is unchanged.
\<close>

theorem write_register_bytes:
  assumes "length data < 2 ^ 63 - 1"
  shows "let bytes = [REG_ADDR_LOW p OR (reg AND 0xf), REG_ADDR_HIGH p OR drop_bit 4 reg] @
                     concat (map (\<lambda>d. [REG_DATA_LOW p OR (d AND 0xf),
                                         REG_DATA_HIGH_WRITE p OR drop_bit 4 d]) data);
             sent = calls (ftdic devc) @ [FTDI_WRITE bytes]
         in length bytes = 2 + 2 * length data \<and>
            sigma_write_register p reg data devc =
              (if 2 * length data + 2 > 80 then (SR_ERR_BUG, devc)
               else (FTDI_CODE (status (ftdic devc) sent),
                     devc\<lparr>ftdic := (ftdic devc)\<lparr>calls := sent\<rparr>\<rparr>))"
proof -
  have "2 * length data + 2 < (2 ^ 64 :: nat)"
    using assms by simp
  then have w: "(2 * length data + 2) mod 2 ^ 64 = 2 * length data + 2"
    by (rule mod_less)
  have l: "length (concat (map (\<lambda>d. [REG_DATA_LOW p OR (d AND 0xf),
                    REG_DATA_HIGH_WRITE p OR drop_bit 4 d]) data)) = 2 * length data"
    by (induction data) simp_all
  show ?thesis
    unfolding sigma_write_register_def Let_def w
    by (simp add: write_register_loop_eq sigma_write_def ftdi_write_data_def
        ftdi_call_status_def Let_def l)
qed

theorem write_register_bytes_witness:
  "length [0xa5 :: u8] < 2 ^ 63 - 1 \<and>
   sigma_write_register plain_protocol 0x12 [0xa5] (scanned_devc quiet_cable) =
     (FTDI_CODE 0,
      scanned_devc (quiet_cable\<lparr>calls := [FTDI_WRITE [0x02, 0x11, 0x25, 0x3a]]\<rparr>))"
  using write_register_bytes [of "[0xa5]" plain_protocol "0x12" "scanned_devc quiet_cable"]
  by (simp add: plain_protocol_def scanned_devc_def quiet_cable_def Let_def)

subsection \<open>Position read\<close>

lemma le24_assemble:
  fixes b0 b1 b2 :: u8
  shows "(ucast b0 OR push_bit 8 (ucast b1) OR push_bit 16 (ucast b2) :: u32) =
           word_of_nat (unat b0 + 256 * unat b1 + 65536 * unat b2)"
proof -
  have d1: "(ucast b0 :: u32) AND (push_bit 8 (ucast b1) OR push_bit 16 (ucast b2)) = 0"
    by (rule bit_eqI) (auto simp add: bit_simps dest: bit_imp_le_length)
  have d2: "(push_bit 8 (ucast b1) :: u32) AND push_bit 16 (ucast b2) = 0"
    by (rule bit_eqI) (auto simp add: bit_simps dest: bit_imp_le_length)
  have "(ucast b0 OR push_bit 8 (ucast b1) OR push_bit 16 (ucast b2) :: u32) =
          ucast b0 + (push_bit 8 (ucast b1) + push_bit 16 (ucast b2))"
    by (simp only: disjunctive_add_eq_or [OF d1] disjunctive_add_eq_or [OF d2])
  also have "\<dots> = word_of_nat (unat b0) + (256 * word_of_nat (unat b1) + 65536 * word_of_nat (unat b2))"
    by (simp add: push_bit_eq_mult)
  also have "\<dots> = word_of_nat (unat b0 + 256 * unat b1 + 65536 * unat b2)"
    by simp
  finally show ?thesis .
qed

text \<open>
  C6: when the cable delivers the six position bytes, \<^verbatim>\<open>sigma_read_pos\<close> returns, for
  the trigger counter (the first three bytes, little-endian) and for the stop counter
  (the last three), the counter decremented by one, and decremented by a further 64
  exactly when the decremented value has its low nine bits all set. The two positions
  are adjusted independently, in \<^verbatim>\<open>uint32_t\<close> arithmetic.
\<close>

theorem read_pos_adjusted:
  assumes "length result0 = 6"
    and "cmd = [REG_ADDR_LOW p OR READ_TRIGGER_POS_LOW p,
                REG_READ_ADDR p OR REG_ADDR_INC p, REG_READ_ADDR p OR REG_ADDR_INC p,
                REG_READ_ADDR p OR REG_ADDR_INC p, REG_READ_ADDR p OR REG_ADDR_INC p,
                REG_READ_ADDR p OR REG_ADDR_INC p, REG_READ_ADDR p OR REG_ADDR_INC p]"
    and "h = calls (ftdic devc) @ [FTDI_WRITE cmd, FTDI_READ 6]"
    and "0 \<le> status (ftdic devc) h"
    and "take 6 (rx (ftdic devc) h) = [t0, t1, t2, s0, s1, s2]"
    and "trig = word_of_nat (unat t0 + 256 * unat t1 + 65536 * unat t2)"
    and "stop = word_of_nat (unat s0 + 256 * unat s1 + 65536 * unat s2)"
  shows "sigma_read_pos p result0 devc =
           (1,
            (if (stop - 1) AND 0x1ff = 0x1ff then stop - 1 - 64 else stop - 1),
            (if (trig - 1) AND 0x1ff = 0x1ff then trig - 1 - 64 else trig - 1),
            devc\<lparr>ftdic := (ftdic devc)\<lparr>calls := h\<rparr>\<rparr>)"
proof -
  have "sigma_read_pos p result0 devc =
          (1, adjust_pos (ucast s0 OR push_bit 8 (ucast s1) OR push_bit 16 (ucast s2)),
              adjust_pos (ucast t0 OR push_bit 8 (ucast t1) OR push_bit 16 (ucast t2)),
              devc\<lparr>ftdic := (ftdic devc)\<lparr>calls := h\<rparr>\<rparr>)"
    using assms(1-5)
    by (simp add: sigma_read_pos_def sigma_write_def sigma_read_def ftdi_write_data_def
        ftdi_read_data_def ftdi_call_status_def Let_def)
  then show ?thesis
    by (simp only: le24_assemble assms(6,7) adjust_pos_def Let_def)
qed

theorem read_pos_adjusted_witness:
  "sigma_read_pos plain_protocol (replicate 6 0) (scanned_devc counter_cable) =
     (1, 0x1233, 0x1bf,
      scanned_devc (counter_cable\<lparr>calls :=
        [FTDI_WRITE [0x01, 0x48, 0x48, 0x48, 0x48, 0x48, 0x48], FTDI_READ 6]\<rparr>))"
  using read_pos_adjusted [of "replicate 6 0" _ plain_protocol _ "scanned_devc counter_cable"
      "0x00" "0x02" "0x00" "0x34" "0x12" "0x00", OF _ refl refl _ _ refl refl]
  by (simp add: plain_protocol_def scanned_devc_def counter_cable_def)

subsection \<open>Firmware staging\<close>

lemma length_unscramble: "length (unscramble imm fw) = length fw"
  by (induction fw arbitrary: imm) (simp_all add: Let_def)

lemma unscramble_nth:
  "k < length fw \<Longrightarrow>
     unscramble imm fw ! k = fw ! k XOR ucast ((scramble_next ^^ Suc k) imm)"
proof (induction fw arbitrary: imm k)
  case Nil
  then show ?case by simp
next
  case (Cons b bs)
  have "(0xff :: u32) = mask 8"
    by (simp add: mask_eq_exp_minus_1)
  moreover have "ucast (x AND mask 8) = (ucast x :: u8)" for x :: u32
    by (rule bit_eqI) (auto simp add: bit_simps)
  ultimately have low: "ucast (x AND 0xff) = (ucast x :: u8)" for x :: u32
    by simp
  show ?case
  proof (cases k)
    case 0
    then show ?thesis by (simp add: Let_def low)
  next
    case (Suc j)
    with Cons.prems have "j < length bs" by simp
    from Cons.IH [OF this, of "scramble_next imm"] Suc show ?thesis
      by (simp add: Let_def funpow_swap1)
  qed
qed

lemma unscramble_eq:
  "unscramble imm fw =
     map (\<lambda>k. fw ! k XOR ucast ((scramble_next ^^ Suc k) imm)) [0..<length fw]"
  by (rule nth_equalityI) (simp_all add: length_unscramble unscramble_nth)

lemma and_bit_masks:
  fixes b :: u8
  shows "b AND 0x80 \<noteq> 0 \<longleftrightarrow> bit b 7" "b AND 0x40 \<noteq> 0 \<longleftrightarrow> bit b 6"
    "b AND 0x20 \<noteq> 0 \<longleftrightarrow> bit b 5" "b AND 0x10 \<noteq> 0 \<longleftrightarrow> bit b 4"
    "b AND 0x08 \<noteq> 0 \<longleftrightarrow> bit b 3" "b AND 0x04 \<noteq> 0 \<longleftrightarrow> bit b 2"
    "b AND 0x02 \<noteq> 0 \<longleftrightarrow> bit b 1" "b AND 0x01 \<noteq> 0 \<longleftrightarrow> bit b 0"
  using and_exp_eq_0_iff_not_bit [of b 7] and_exp_eq_0_iff_not_bit [of b 6]
    and_exp_eq_0_iff_not_bit [of b 5] and_exp_eq_0_iff_not_bit [of b 4]
    and_exp_eq_0_iff_not_bit [of b 3] and_exp_eq_0_iff_not_bit [of b 2]
    and_exp_eq_0_iff_not_bit [of b 1] and_exp_eq_0_iff_not_bit [of b 0]
  by simp_all

lemma bitbang_byte_msb_first:
  "bitbang_byte b 0x80 =
     concat (map (\<lambda>n. [(if bit b n then BB_PIN_DIN else 0) OR BB_PIN_CCLK,
                        (if bit b n then BB_PIN_DIN else 0)]) [7, 6, 5, 4, 3, 2, 1, 0])"
  apply (subst bitbang_byte.simps, simp only: Let_def)
  apply (subst bitbang_byte.simps, simp only: Let_def)
  apply (subst bitbang_byte.simps, simp only: Let_def)
  apply (subst bitbang_byte.simps, simp only: Let_def)
  apply (subst bitbang_byte.simps, simp only: Let_def)
  apply (subst bitbang_byte.simps, simp only: Let_def)
  apply (subst bitbang_byte.simps, simp only: Let_def)
  apply (subst bitbang_byte.simps, simp only: Let_def)
  apply (subst bitbang_byte.simps, simp only: Let_def)
  apply (simp add: drop_bit_eq_div and_bit_masks)
  done


lemma bitbang_stream_eq:
  "bitbang_stream bs =
     concat (map (\<lambda>b. concat (map (\<lambda>n. [(if bit b n then BB_PIN_DIN else 0) OR BB_PIN_CCLK,
                        (if bit b n then BB_PIN_DIN else 0)]) [7, 6, 5, 4, 3, 2, 1, 0])) bs)"
  by (induction bs) (simp_all only: bitbang_stream.simps bitbang_byte_msb_first list.map concat.simps)

lemma length_bitbang_stream: "length (bitbang_stream bs) = 2 * 8 * length bs"
  by (induction bs) (simp_all add: bitbang_byte_msb_first)

lemma scramble_next_recurrence:
  "scramble_next = (\<lambda>imm. (imm + 0x0a853753) mod 177 + imm * 0x08034052)"
  by (rule ext) (simp add: scramble_next_def)

lemma ucast_low_byte: "(ucast (x AND 0xff) :: u8) = ucast x" for x :: u32
proof -
  have "(0xff :: u32) = mask 8"
    by (simp add: mask_eq_exp_minus_1)
  moreover have "ucast (x AND mask 8) = (ucast x :: u8)"
    by (rule bit_eqI) (auto simp add: bit_simps)
  ultimately show ?thesis by simp
qed

text \<open>
  C7: for every firmware file of \<open>L\<close> bytes that loads, \<^verbatim>\<open>sigma_fw_2_bitbang\<close> descrambles
  byte \<open>k\<close> of the file (counted from 0, in file order) by XORing it with the low 8 bits
  of state \<open>k + 1\<close> of the sequence \<open>imm 0 = 0x3f6df2ab\<close>,
  \<open>imm (n + 1) = (imm n + 0x0a853753) mod 177 + imm n * 0x08034052\<close> in 32-bit arithmetic
  (sum and product of the state before the step), and expands each descrambled byte, for
  its bits 7 down to 0, into the two samples DIN-level with CCLK, then DIN-level alone:
  a stream of exactly \<open>2 * 8 * L\<close> bytes. That stream is the result, with \<^verbatim>\<open>SR_OK\<close>,
  whenever the buffer for it is allocated; when the allocation is refused the result is
  \<^verbatim>\<open>SR_ERR_MALLOC\<close>.
\<close>

theorem fw_2_bitbang_stream:
  assumes "firmware_resources ctx name = Some fw"
    and "length fw \<le> SIGMA_FIRMWARE_SIZE_LIMIT"
    and "descrambled =
           map (\<lambda>k. fw ! k XOR
                  ucast (((\<lambda>imm :: u32. (imm + 0x0a853753) mod 177 + imm * 0x08034052)
                            ^^ (k + 1)) 0x3f6df2ab AND 0xff))
             [0..<length fw]"
    and "out = concat (map (\<lambda>b. concat (map
                 (\<lambda>n. [(if bit b n then BB_PIN_DIN else 0) OR BB_PIN_CCLK,
                       (if bit b n then BB_PIN_DIN else 0)]) [7, 6, 5, 4, 3, 2, 1, 0]))
               descrambled)"
  shows "sigma_fw_2_bitbang ctx name =
           (if malloc_ok ctx (length fw * 8 * 2) then Inr out else Inl SR_ERR_MALLOC) \<and>
         length out = 2 * 8 * length fw"
proof -
  have d: "unscramble 0x3f6df2ab fw = descrambled"
    unfolding assms(3) ucast_low_byte
    by (simp add: unscramble_eq scramble_next_recurrence)
  have o: "bitbang_stream descrambled = out"
    by (simp only: bitbang_stream_eq assms(4))
  have "length descrambled = length fw"
    by (simp add: assms(3))
  with o have "length out = 2 * 8 * length fw"
    using length_bitbang_stream [of descrambled] by simp
  moreover have "sigma_fw_2_bitbang ctx name =
           (if malloc_ok ctx (length fw * 8 * 2) then Inr out else Inl SR_ERR_MALLOC)"
    using assms(1,2) by (simp add: sigma_fw_2_bitbang_def sr_resource_load_def Let_def d o)
  ultimately show ?thesis by simp
qed

text \<open>Five zero bytes: the stream shows the low bytes \<open>0x3a\<close>, \<open>0xf0\<close>, \<open>0xf9\<close>, \<open>0x6a\<close>,
  \<open>0x25\<close> of the first five states, bit 7 first.\<close>

theorem fw_2_bitbang_stream_witness:
  "sigma_fw_2_bitbang five_byte_ctx ''asix-sigma-50.fw'' =
     Inr [1, 0, 1, 0, 65, 64, 65, 64, 65, 64, 1, 0, 65, 64, 1, 0,
          65, 64, 65, 64, 65, 64, 65, 64, 1, 0, 1, 0, 1, 0, 1, 0,
          65, 64, 65, 64, 65, 64, 65, 64, 65, 64, 1, 0, 1, 0, 65, 64,
          1, 0, 65, 64, 65, 64, 1, 0, 65, 64, 1, 0, 65, 64, 1, 0,
          1, 0, 1, 0, 65, 64, 1, 0, 1, 0, 65, 64, 1, 0, 65, 64]"
  using fw_2_bitbang_stream [of five_byte_ctx "''asix-sigma-50.fw''"
      "[0x00, 0x00, 0x00, 0x00, 0x00]" _ _, OF _ _ refl refl]
  by (simp add: five_byte_ctx_def SIGMA_FIRMWARE_SIZE_LIMIT_def
      BB_PIN_DIN_def BB_PIN_CCLK_def upt_rec [of 0] upt_rec [of 1] upt_rec [of 2]
      upt_rec [of 3] upt_rec [of 4] bit_numeral_simps)

subsection \<open>Firmware upload\<close>

text \<open>
  C8: when the device context's current firmware slot is the requested slot,
  \<^verbatim>\<open>upload_firmware\<close> returns \<^verbatim>\<open>SR_OK\<close> and the device context is unchanged; the
  context holds the cable's record of calls, so no call reached the cable.
\<close>

theorem upload_firmware_cache_hit:
  assumes "cur_firmware devc = firmware_idx"
    and "0 \<le> firmware_idx" and "nat firmware_idx < length firmware_files"
  shows "upload_firmware p ctx firmware_idx devc = Some (SR_OK, devc)"
  using assms by (simp add: upload_firmware_def)

theorem upload_firmware_cache_hit_witness:
  "upload_firmware plain_protocol two_byte_ctx 0 ((scanned_devc quiet_cable)\<lparr>cur_firmware := 0\<rparr>) =
     Some (SR_OK, (scanned_devc quiet_cable)\<lparr>cur_firmware := 0\<rparr>)"
  using upload_firmware_cache_hit
    [of "(scanned_devc quiet_cable)\<lparr>cur_firmware := 0\<rparr>" 0 plain_protocol two_byte_ctx]
  by (simp add: firmware_files_def)

subsection \<open>Trigger look-up table entries\<close>

lemma and_single_bit_word:
  fixes w :: u16
  shows "w AND push_bit n 1 = 0 \<longleftrightarrow> \<not> bit w n"
  using and_exp_eq_0_iff_not_bit [of w n] by simp

lemma and_single_bit_nat:
  fixes j :: nat
  shows "j AND push_bit n 1 = 0 \<longleftrightarrow> \<not> bit j n"
  using and_exp_eq_0_iff_not_bit [of j n] by simp

lemma clear_bit_iff:
  fixes e :: u16
  shows "bit (e AND NOT (push_bit j 1)) n \<longleftrightarrow> bit e n \<and> n \<noteq> j"
  by (auto simp add: bit_simps dest: bit_imp_le_length)

lemma lut_k_loop_bit_from:
  "bit (lut_k_loop i j k v m e) n \<longleftrightarrow>
     bit e n \<and> \<not> (n = j \<and> (\<exists>k'. k \<le> k' \<and> k' < 4 \<and> bit m (i * 4 + k') \<and> bit v (i * 4 + k') \<noteq> bit j k'))"
proof (induction "4 - k" arbitrary: k e)
  case 0
  then have "\<not> k < 4" by simp
  then have "lut_k_loop i j k v m e = e"
    by (subst lut_k_loop.simps) simp
  with \<open>\<not> k < 4\<close> show ?case by auto
next
  case (Suc d)
  then have k: "k < 4" and d: "d = 4 - (k + 1)" by simp_all
  define e' where "e' = (if \<not> \<not> bit m (i * 4 + k) \<and> (\<not> bit v (i * 4 + k)) \<noteq> (\<not> bit j k)
                          then e AND NOT (push_bit j 1) else e)"
  have step: "lut_k_loop i j k v m e = lut_k_loop i j (k + 1) v m e'"
    by (subst lut_k_loop.simps)
      (simp only: k if_True Let_def and_single_bit_word and_single_bit_nat e'_def)
  have e': "bit e' n \<longleftrightarrow> bit e n \<and> \<not> (n = j \<and> bit m (i * 4 + k) \<and> bit v (i * 4 + k) \<noteq> bit j k)"
    by (auto simp add: e'_def clear_bit_iff simp del: push_bit_of_1)
  have split: "(\<exists>k'. k \<le> k' \<and> k' < 4 \<and> P k') \<longleftrightarrow> P k \<or> (\<exists>k'. k + 1 \<le> k' \<and> k' < 4 \<and> P k')" for P
  proof
    assume "\<exists>k'. k \<le> k' \<and> k' < 4 \<and> P k'"
    then obtain k' where "k \<le> k'" "k' < 4" "P k'" by blast
    then show "P k \<or> (\<exists>k'. k + 1 \<le> k' \<and> k' < 4 \<and> P k')"
      by (cases "k' = k") auto
  next
    assume "P k \<or> (\<exists>k'. k + 1 \<le> k' \<and> k' < 4 \<and> P k')"
    then show "\<exists>k'. k \<le> k' \<and> k' < 4 \<and> P k'"
    proof
      assume "P k"
      with k show ?thesis by (intro exI [of _ k]) simp
    next
      assume "\<exists>k'. k + 1 \<le> k' \<and> k' < 4 \<and> P k'"
      then obtain k' where "k + 1 \<le> k'" "k' < 4" "P k'" by blast
      then show ?thesis by (intro exI [of _ k']) simp
    qed
  qed
  show ?case
    unfolding step Suc.hyps(1) [OF d] e' split
    by blast
qed


lemma lut_j_loop_bit_from:
  "bit (lut_j_loop i j v m e) n \<longleftrightarrow>
     bit e n \<and> \<not> (j \<le> n \<and> n < 16 \<and> (\<exists>k<4. bit m (i * 4 + k) \<and> bit v (i * 4 + k) \<noteq> bit n k))"
proof (induction "16 - j" arbitrary: j e)
  case 0
  then have "\<not> j < 16" by simp
  then have "lut_j_loop i j v m e = e"
    by (subst lut_j_loop.simps) simp
  with \<open>\<not> j < 16\<close> show ?case by auto
next
  case (Suc d)
  then have j: "j < 16" and d: "d = 16 - (j + 1)" by simp_all
  have step: "lut_j_loop i j v m e = lut_j_loop i (j + 1) v m (lut_k_loop i j 0 v m e)"
    by (subst lut_j_loop.simps) (simp only: j if_True)
  have "j \<le> n \<longleftrightarrow> n = j \<or> j + 1 \<le> n" by auto
  with j show ?case
    unfolding step Suc.hyps(1) [OF d] lut_k_loop_bit_from
    by auto
qed

lemma lut_i_loop_unrolled:
  assumes "length entry = 4"
  shows "lut_i_loop 0 v m entry =
           [lut_j_loop 0 0 v m 0xffff, lut_j_loop 1 0 v m 0xffff,
            lut_j_loop 2 0 v m 0xffff, lut_j_loop 3 0 v m 0xffff]"
proof -
  from assms obtain a b c d where e: "entry = [a, b, c, d]"
    by (cases entry; cases "tl entry"; cases "tl (tl entry)"; cases "tl (tl (tl entry))") auto
  have stop: "lut_i_loop (Suc (Suc (Suc (Suc 0)))) v m xs = xs" for xs
    by (subst lut_i_loop.simps) simp
  show ?thesis
    unfolding e
    apply (subst lut_i_loop.simps, simp add: Let_def)
    apply (subst lut_i_loop.simps, simp add: Let_def)
    apply (subst lut_i_loop.simps, simp add: Let_def)
    apply (subst lut_i_loop.simps, simp add: Let_def stop eval_nat_numeral)
    done
qed

text \<open>
  C9: for every 16-bit value and mask, after \<^verbatim>\<open>build_lut_entry\<close> on an array of four
  entries, for every quad \<open>i < 4\<close> and every position \<open>j < 16\<close>, bit \<open>j\<close> of entry \<open>i\<close> is set
  if and only if \<open>j AND mask_quad = value_quad AND mask_quad\<close>, where the quads are the
  4-bit slices of mask and value for the channels \<open>4 * i\<close> to \<open>4 * i + 3\<close>.
\<close>

theorem build_lut_entry_bits:
  assumes "length entry = 4" and "i < 4" and "j < 16"
  shows "bit (build_lut_entry value msk entry ! i) j \<longleftrightarrow>
           word_of_nat j AND (drop_bit (4 * i) msk AND 0xf) =
           (drop_bit (4 * i) value AND 0xf) AND (drop_bit (4 * i) msk AND 0xf)"
proof -
  have f: "(0xf :: u16) = mask 4"
    by (simp add: mask_eq_exp_minus_1)
  have "build_lut_entry value msk entry ! i = lut_j_loop i 0 value msk 0xffff"
  proof -
    from \<open>i < 4\<close> have "i = 0 \<or> i = 1 \<or> i = 2 \<or> i = 3" by arith
    then show ?thesis
      by (auto simp add: build_lut_entry_def lut_i_loop_unrolled [OF assms(1)])
  qed
  moreover have "bit (0xffff :: u16) j"
  proof -
    have "(0xffff :: u16) = - 1" by simp
    then show ?thesis using \<open>j < 16\<close> by (simp only: bit_minus_1_iff) simp
  qed
  ultimately have l: "bit (build_lut_entry value msk entry ! i) j \<longleftrightarrow>
      \<not> (\<exists>k<4. bit msk (i * 4 + k) \<and> bit value (i * 4 + k) \<noteq> bit j k)"
    using \<open>j < 16\<close> by (simp add: lut_j_loop_bit_from)
  have r: "word_of_nat j AND (drop_bit (4 * i) msk AND 0xf) =
           (drop_bit (4 * i) value AND 0xf) AND (drop_bit (4 * i) msk AND 0xf) \<longleftrightarrow>
      (\<forall>k<4. bit msk (i * 4 + k) \<longrightarrow> bit value (i * 4 + k) = bit j k)"
  proof
    assume eq: "word_of_nat j AND (drop_bit (4 * i) msk AND 0xf) =
           (drop_bit (4 * i) value AND 0xf) AND (drop_bit (4 * i) msk AND 0xf)"
    show "\<forall>k<4. bit msk (i * 4 + k) \<longrightarrow> bit value (i * 4 + k) = bit j k"
    proof (intro allI impI)
      fix k :: nat
      assume k: "k < 4" and m: "bit msk (i * 4 + k)"
      from eq have "bit (word_of_nat j AND (drop_bit (4 * i) msk AND 0xf)) k =
           bit ((drop_bit (4 * i) value AND 0xf) AND (drop_bit (4 * i) msk AND 0xf)) k"
        by simp
      with k m show "bit value (i * 4 + k) = bit j k"
        by (simp add: f bit_simps mult.commute add.commute)
    qed
  next
    assume h: "\<forall>k<4. bit msk (i * 4 + k) \<longrightarrow> bit value (i * 4 + k) = bit j k"
    show "word_of_nat j AND (drop_bit (4 * i) msk AND 0xf) =
           (drop_bit (4 * i) value AND 0xf) AND (drop_bit (4 * i) msk AND 0xf)"
      unfolding f
      by (rule bit_eqI) (use h in \<open>auto simp add: bit_simps mult.commute add.commute\<close>)
  qed
  show ?thesis unfolding l r by blast
qed

theorem build_lut_entry_bits_witness:
  "bit (build_lut_entry 0x00a5 0x00ff [0, 0, 0, 0] ! 0) 5"
  using build_lut_entry_bits [of "[0, 0, 0, 0]" 0 5 "0x00a5" "0x00ff"]
  by simp

subsection \<open>Trigger pinpointing\<close>

lemma and_7_nat: "(k::nat) AND 7 = k mod 8"
proof -
  have m: "(mask 3 :: nat) = 7" by (simp add: mask_eq_exp_minus_1)
  have "k AND mask 3 = k mod 2 ^ 3"
    by (simp only: take_bit_eq_mask [symmetric] take_bit_eq_mod)
  then show ?thesis by (simp add: m)
qed

lemma offset_loop_step:
  assumes "i < 8" and "i = 0 \<longrightarrow> ls = last0" and "0 < i \<longrightarrow> s = sample_at samples (i - 1)"
  shows "get_trigger_offset_loop i samples ls s t =
           (if fires_at samples last0 t i then i
            else get_trigger_offset_loop (i + 1) samples
                   (previous_sample samples last0 i) (sample_at samples i) t)"
proof -
  have p: "(if 0 < i then s else ls) = previous_sample samples last0 i"
    using assms(2,3) by (auto simp add: previous_sample_def)
  show ?thesis
    apply (subst get_trigger_offset_loop.simps)
    apply (simp only: assms(1) if_True Let_def p sample_at_def [symmetric])
    apply (auto simp add: fires_at_def trigger_fires_def)
    done
qed

lemma offset_loop_no_match:
  assumes "i \<le> 8" and "\<forall>j. i \<le> j \<and> j < 8 \<longrightarrow> \<not> fires_at samples last0 t j"
    and "i = 0 \<longrightarrow> ls = last0" and "0 < i \<longrightarrow> s = sample_at samples (i - 1)"
  shows "get_trigger_offset_loop i samples ls s t = 8"
  using assms
proof (induction "8 - i" arbitrary: i ls s)
  case 0
  then have "i = 8" by simp
  then show ?case by (subst get_trigger_offset_loop.simps) simp
next
  case (Suc d)
  then have i: "i < 8" by simp
  from Suc.prems(2) i have nf: "\<not> fires_at samples last0 t i" by simp
  have "get_trigger_offset_loop (i + 1) samples
          (previous_sample samples last0 i) (sample_at samples i) t = 8"
    using Suc.hyps(2) i Suc.prems(2) by (intro Suc.hyps(1)) auto
  then show ?case
    by (simp add: offset_loop_step [OF i Suc.prems(3,4)] nf)
qed

lemma offset_loop_first_match:
  assumes "i \<le> k" and "k < 8" and "fires_at samples last0 t k"
    and "\<forall>j. i \<le> j \<and> j < k \<longrightarrow> \<not> fires_at samples last0 t j"
    and "i = 0 \<longrightarrow> ls = last0" and "0 < i \<longrightarrow> s = sample_at samples (i - 1)"
  shows "get_trigger_offset_loop i samples ls s t = k"
  using assms
proof (induction "k - i" arbitrary: i ls s)
  case 0
  then have "i = k" by simp
  have "get_trigger_offset_loop i samples ls s t =
           (if fires_at samples last0 t i then i
            else get_trigger_offset_loop (i + 1) samples
                   (previous_sample samples last0 i) (sample_at samples i) t)"
    using "0.prems" \<open>i = k\<close> by (intro offset_loop_step) auto
  with \<open>i = k\<close> "0.prems"(3) show ?case by simp
next
  case (Suc d)
  then have i: "i < k" "i < 8" by simp_all
  from Suc.prems(4) i have nf: "\<not> fires_at samples last0 t i" by simp
  have "get_trigger_offset_loop (i + 1) samples
          (previous_sample samples last0 i) (sample_at samples i) t = k"
    using Suc.hyps(2) i Suc.prems(2,3,4) by (intro Suc.hyps(1)) auto
  then show ?case
    by (simp add: offset_loop_step [OF i(2) Suc.prems(5,6)] nf)
qed

text \<open>
  C2, as the code has it: for every window of 8 samples and every trigger,
  \<^verbatim>\<open>get_trigger_offset\<close> returns the first index \<open>i < 8\<close> whose sample satisfies the
  three conditions (value/mask match, rising edges fire, falling edges fire, each tested
  against the sample before it); when none of the 8 samples does, the loop ends with
  \<open>i = 8\<close> and the result \<open>8 AND 7\<close> is 0, the original trigger position.
\<close>

theorem trigger_offset_first_match:
  assumes "16 \<le> length samples"
  shows "(\<forall>i<8. fires_at samples last_sample t i \<and> (\<forall>j<i. \<not> fires_at samples last_sample t j)
            \<longrightarrow> get_trigger_offset samples last_sample t = i) \<and>
         ((\<forall>i<8. \<not> fires_at samples last_sample t i)
            \<longrightarrow> get_trigger_offset samples last_sample t = 0)"
proof (intro conjI allI impI)
  fix i :: nat
  assume "i < 8" and h: "fires_at samples last_sample t i \<and> (\<forall>j<i. \<not> fires_at samples last_sample t j)"
  then have "get_trigger_offset_loop 0 samples last_sample 0 t = i"
    by (intro offset_loop_first_match [where ?last0.0 = last_sample]) auto
  with \<open>i < 8\<close> show "get_trigger_offset samples last_sample t = i"
    by (simp add: get_trigger_offset_def and_7_nat)
next
  assume "\<forall>i<8. \<not> fires_at samples last_sample t i"
  then have "get_trigger_offset_loop 0 samples last_sample 0 t = 8"
    by (intro offset_loop_no_match [where ?last0.0 = last_sample]) auto
  then show "get_trigger_offset samples last_sample t = 0"
    by (simp add: get_trigger_offset_def and_7_nat)
qed


theorem trigger_offset_first_match_witness:
  "get_trigger_offset late_samples 0 level_trigger = 2"
proof -
  have "16 \<le> length late_samples"
    by (simp add: late_samples_def)
  from trigger_offset_first_match [OF this, of 0 level_trigger, THEN conjunct1, rule_format, of 2]
  show ?thesis
    by (simp add: fires_at_def trigger_fires_def sample_at_def previous_sample_def
        late_samples_def level_trigger_def less_2_cases_iff)
qed

text \<open>No sample of the flat window satisfies the conditions, and the result is 0 (not
  7).\<close>

theorem trigger_offset_no_match_counterexample:
  "filter (fires_at flat_samples 0 level_trigger) [0, 1, 2, 3, 4, 5, 6, 7] = [] \<and>
   get_trigger_offset flat_samples 0 level_trigger = 0"
proof -
  have e: "Suc (Suc (Suc (Suc (Suc (Suc (Suc (Suc 0))))))) = 8"
    by simp
  show ?thesis
    by (simp add: fires_at_def trigger_fires_def sample_at_def previous_sample_def
        flat_samples_def level_trigger_def get_trigger_offset_def
        get_trigger_offset_loop.simps e and_7_nat)
qed

subsection \<open>Trigger conversion at the basic rates\<close>

lemma basic_rate: "r \<le> SR_MHZ 50 \<Longrightarrow> \<not> SR_MHZ 100 \<le> r"
  by (simp add: SR_MHZ_def word_le_nat_alt)

lemma ucast_channelbit: "ucast (push_bit n 1 :: u32) = (push_bit n 1 :: u16)"
  by (rule bit_eqI) (auto simp add: bit_simps)

lemma edge_tally_append: "edge_tally (xs @ ys) = edge_tally xs + edge_tally ys"
  by (simp add: edge_tally_def)

lemma or_list_append: "or_list (xs @ ys) = or_list xs OR or_list ys"
  by (induction xs) (simp_all add: or.assoc)

lemma channel_bits_append: "channel_bits k (xs @ ys) = channel_bits k xs OR channel_bits k ys"
  by (simp add: channel_bits_def or_list_append)

lemma convert_match_result:
  assumes "\<not> SR_MHZ 100 \<le> rate" and "n \<le> 1"
  shows "loop_result [m] (t, n) (convert_match rate m (t, n))"
  using assms
  by (cases "match m")
    (auto simp add: loop_result_def convert_match_def Let_def edge_tally_def channel_bits_def
      ucast_channelbit simp del: push_bit_of_1)

lemma loop_result_append:
  assumes "loop_result xs (t, n) (None, t', n')" and "loop_result ys (t', n') r"
  shows "loop_result (xs @ ys) (t, n) r"
proof -
  obtain e t'' n'' where r: "r = (e, t'', n'')" by (cases r)
  from assms(1) have 1: "n + edge_tally xs \<le> 1" "n' = n + edge_tally xs"
    "risingmask t' = risingmask t OR channel_bits SR_TRIGGER_RISING xs"
    "fallingmask t' = fallingmask t OR channel_bits SR_TRIGGER_FALLING xs"
    "simplemask t' = simplemask t OR channel_bits SR_TRIGGER_ONE xs
                            OR channel_bits SR_TRIGGER_ZERO xs"
    by (simp_all add: loop_result_def split: if_splits)
  show ?thesis
  proof (cases "n + edge_tally (xs @ ys) \<le> 1")
    case True
    then have "n' + edge_tally ys \<le> 1"
      by (simp add: 1(2) edge_tally_append)
    with assms(2) have 2: "e = None" "n'' = n' + edge_tally ys"
      "risingmask t'' = risingmask t' OR channel_bits SR_TRIGGER_RISING ys"
      "fallingmask t'' = fallingmask t' OR channel_bits SR_TRIGGER_FALLING ys"
      "simplemask t'' = simplemask t' OR channel_bits SR_TRIGGER_ONE ys
                            OR channel_bits SR_TRIGGER_ZERO ys"
      by (simp_all add: loop_result_def r)
    have "simplemask t'' = simplemask t OR channel_bits SR_TRIGGER_ONE (xs @ ys)
                            OR channel_bits SR_TRIGGER_ZERO (xs @ ys)"
      unfolding 2(5) 1(5) channel_bits_append
      by (simp add: ac_simps)
    with True show ?thesis
      unfolding loop_result_def r
      by (simp add: 1 2 edge_tally_append channel_bits_append or.assoc)
  next
    case False
    then have "\<not> n' + edge_tally ys \<le> 1"
      by (simp add: 1(2) edge_tally_append)
    with assms(2) have "e = Some SR_ERR"
      by (simp add: loop_result_def r)
    with False show ?thesis
      by (simp add: loop_result_def r)
  qed
qed

lemma loop_result_step:
  assumes "loop_result [m] (t, n) (None, t', n')" and "loop_result ms (t', n') r"
  shows "loop_result (m # ms) (t, n) r"
  using loop_result_append [OF assms] by simp

lemma matches_loop_result:
  assumes "\<not> SR_MHZ 100 \<le> rate" and "n \<le> 1"
  shows "loop_result ms (t, n) (matches_loop rate ms (t, n))"
  using assms(2)
proof (induction ms arbitrary: t n)
  case Nil
  then show ?case
    by (simp add: loop_result_def edge_tally_def channel_bits_def)
next
  case (Cons m ms)
  obtain e t' n' where c: "convert_match rate m (t, n) = (e, t', n')"
    by (cases "convert_match rate m (t, n)")
  have one: "loop_result [m] (t, n) (e, t', n')"
    using convert_match_result [OF assms(1) Cons.prems, of m t] by (simp add: c)
  show ?case
  proof (cases e)
    case None
    with one have "n' \<le> 1"
      by (simp add: loop_result_def split: if_splits)
    from Cons.IH [OF this, of t'] one None show ?thesis
      by (simp add: c loop_result_step)
  next
    case (Some err)
    with one have "\<not> n + edge_tally [m] \<le> 1" and "err = SR_ERR"
      by (simp_all add: loop_result_def split: if_splits)
    then show ?thesis
      by (simp add: c Some loop_result_def edge_tally_append [of "[m]" ms, simplified])
  qed
qed


lemma stages_loop_result:
  assumes "\<not> SR_MHZ 100 \<le> rate" and "n \<le> 1"
  shows "loop_result (concat (map matches l)) (t, n) (stages_loop rate l (t, n))"
  using assms(2)
proof (induction l arbitrary: t n)
  case Nil
  then show ?case
    by (simp add: loop_result_def edge_tally_def channel_bits_def)
next
  case (Cons stage l)
  obtain e t' n' where c: "matches_loop rate (matches stage) (t, n) = (e, t', n')"
    by (cases "matches_loop rate (matches stage) (t, n)")
  have one: "loop_result (matches stage) (t, n) (e, t', n')"
    using matches_loop_result [OF assms(1) Cons.prems, of "matches stage" t] by (simp add: c)
  show ?case
  proof (cases e)
    case None
    with one have "n' \<le> 1"
      by (simp add: loop_result_def split: if_splits)
    from Cons.IH [OF this, of t'] one None show ?thesis
      by (simp add: c loop_result_append)
  next
    case (Some err)
    with one have "\<not> n + edge_tally (matches stage) \<le> 1" and "err = SR_ERR"
      by (simp_all add: loop_result_def split: if_splits)
    then show ?thesis
      by (simp add: c Some loop_result_def edge_tally_append)
  qed
qed

text \<open>
  C1, as the code has it: for every trigger model at a samplerate of at most 50 MHz
  (channels of the 16-channel device), \<^verbatim>\<open>sigma_convert_trigger\<close> returns \<^verbatim>\<open>SR_OK\<close> when
  the tally of rising and falling matches on enabled channels is at most 1, and then
  \<^verbatim>\<open>risingmask\<close>, \<^verbatim>\<open>fallingmask\<close> and \<^verbatim>\<open>simplemask\<close> hold the channel bits of the rising,
  falling and ONE/ZERO matches; it returns the generic error \<^verbatim>\<open>SR_ERR\<close> exactly when the
  tally exceeds 1. ONE and ZERO matches, on any number of channels, never make it fail.
\<close>

theorem convert_trigger_basic_rates:
  assumes "cur_samplerate devc \<le> SR_MHZ 50"
    and "\<forall>m \<in> set (all_matches trg). index (channel m) < 16"
  shows "fst (sigma_convert_trigger (Some trg) devc) =
           (if edge_tally (all_matches trg) \<le> 1 then SR_OK else SR_ERR) \<and>
         (edge_tally (all_matches trg) \<le> 1 \<longrightarrow>
            risingmask (trigger (snd (sigma_convert_trigger (Some trg) devc))) =
              channel_bits SR_TRIGGER_RISING (all_matches trg) \<and>
            fallingmask (trigger (snd (sigma_convert_trigger (Some trg) devc))) =
              channel_bits SR_TRIGGER_FALLING (all_matches trg) \<and>
            simplemask (trigger (snd (sigma_convert_trigger (Some trg) devc))) =
              channel_bits SR_TRIGGER_ONE (all_matches trg) OR
              channel_bits SR_TRIGGER_ZERO (all_matches trg))"
proof -
  define t0 where "t0 = \<lparr>risingmask = 0, fallingmask = 0, simplemask = 0, simplevalue = (0::u16)\<rparr>"
  obtain e t' n' where l: "stages_loop (cur_samplerate devc) (stages trg) (t0, 0) = (e, t', n')"
    by (cases "stages_loop (cur_samplerate devc) (stages trg) (t0, 0)")
  have z: "risingmask t0 = 0" "fallingmask t0 = 0" "simplemask t0 = 0"
    by (simp_all add: t0_def)
  have r: "loop_result (all_matches trg) (t0, 0) (e, t', n')"
    using stages_loop_result [OF basic_rate [OF assms(1)], of 0 "stages trg" t0]
    by (simp add: l all_matches_def)
  have c: "sigma_convert_trigger (Some trg) devc =
             ((case e of Some x \<Rightarrow> x | None \<Rightarrow> SR_OK), devc\<lparr>trigger := t'\<rparr>)"
    by (cases e) (simp_all add: sigma_convert_trigger_def Let_def t0_def [symmetric] l)
  show ?thesis
  proof (cases "edge_tally (all_matches trg) \<le> 1")
    case True
    with r show ?thesis
      by (simp add: c loop_result_def z)
  next
    case False
    with r show ?thesis
      by (simp add: c loop_result_def)
  qed
qed

theorem convert_trigger_basic_rates_witness:
  "fst (sigma_convert_trigger (Some one_edge_trigger) (scanned_devc quiet_cable)) = SR_OK \<and>
   risingmask (trigger (snd (sigma_convert_trigger (Some one_edge_trigger)
      (scanned_devc quiet_cable)))) = 8 \<and>
   simplemask (trigger (snd (sigma_convert_trigger (Some one_edge_trigger)
      (scanned_devc quiet_cable)))) = 3"
  using convert_trigger_basic_rates [of "scanned_devc quiet_cable" one_edge_trigger]
  by (simp add: scanned_devc_def SR_KHZ_def SR_MHZ_def one_edge_trigger_def all_matches_def
      edge_tally_def channel_bits_def)

text \<open>Two rising edges at 200 kHz: a tally of 2, and the result is \<^verbatim>\<open>SR_ERR\<close>.\<close>

theorem convert_trigger_two_edges_counterexample:
  "cur_samplerate (scanned_devc quiet_cable) \<le> SR_MHZ 50 \<and>
   edge_tally (all_matches two_edge_trigger) = 2 \<and>
   sigma_convert_trigger (Some two_edge_trigger) (scanned_devc quiet_cable) =
     (SR_ERR, (scanned_devc quiet_cable)\<lparr>trigger :=
        \<lparr>risingmask = 3, fallingmask = 0, simplemask = 0, simplevalue = 0\<rparr>\<rparr>)"
  by (simp add: scanned_devc_def SR_KHZ_def SR_MHZ_def two_edge_trigger_def all_matches_def
      edge_tally_def sigma_convert_trigger_def convert_match_def Let_def)

subsection \<open>Setting the samplerate\<close>

lemma settings_ftdic [simp]: "settings (d\<lparr>ftdic := f\<rparr>) = settings d"
  by (simp add: settings_def)

lemma settings_sigma_write [simp]: "settings (snd (sigma_write buf d)) = settings d"
  by (simp add: sigma_write_def split: prod.splits)

lemma settings_sigma_write': "sigma_write buf d = (r, d') \<Longrightarrow> settings d' = settings d"
  using settings_sigma_write [of buf d] by simp

lemma settings_sigma_read: "sigma_read buf n d = (r, buf', d') \<Longrightarrow> settings d' = settings d"
  by (auto simp add: sigma_read_def split: prod.splits)

lemma settings_init_b_loop:
  "init_b_loop retries data d = (r, d') \<Longrightarrow> settings d' = settings d"
proof (induction retries arbitrary: data d)
  case 0
  then show ?case by simp
next
  case (Suc retries)
  obtain ret buf d1 where rd: "sigma_read [data] 1 d = (ret, buf, d1)"
    by (cases "sigma_read [data] 1 d")
  have s1: "settings d1 = settings d"
    using rd by (rule settings_sigma_read)
  show ?case
  proof (cases "ret < 0 \<or> hd buf AND BB_PIN_INIT \<noteq> 0")
    case True
    with Suc.prems rd have "d' = d1" by (auto split: if_splits)
    with s1 show ?thesis by simp
  next
    case False
    with Suc.prems rd have "init_b_loop retries (hd buf) d1 = (r, d')" by simp
    then have "settings d' = settings d1" by (rule Suc.IH)
    with s1 show ?thesis by simp
  qed
qed

lemma settings_init_bitbang:
  "sigma_fpga_init_bitbang data0 d = (r, d') \<Longrightarrow> settings d' = settings d"
  unfolding sigma_fpga_init_bitbang_def Let_def
  by (drule settings_init_b_loop) simp

lemma settings_init_la:
  "sigma_fpga_init_la p result0 d = (r, d') \<Longrightarrow> settings d' = settings d"
  unfolding sigma_fpga_init_la_def Let_def
  by (auto split: prod.splits if_splits dest!: settings_sigma_write' settings_sigma_read)

lemma settings_drain_pending:
  assumes "drain_pending pins0 d0 = Some d0'"
  shows "settings d0' = settings d0"
proof (rule drain_pending.raw_induct
    [where P = "\<lambda>pins d d'. settings d' = settings d", OF _ assms])
  fix drain :: "u8 list \<Rightarrow> dev_context \<Rightarrow> dev_context option"
    and pins :: "u8 list" and d d' :: dev_context
  assume IH: "\<And>pins d d'. drain pins d = Some d' \<Longrightarrow> settings d' = settings d"
    and eq: "(case sigma_read pins 1 d of
                (ret, pins', devc') \<Rightarrow>
                  if ret = 1 then drain pins' devc' else Some devc') = Some d'"
  obtain ret buf d1 where rd: "sigma_read pins 1 d = (ret, buf, d1)"
    by (cases "sigma_read pins 1 d")
  have s1: "settings d1 = settings d"
    using rd by (rule settings_sigma_read)
  show "settings d' = settings d"
  proof (cases "ret = 1")
    case True
    with eq rd have "drain buf d1 = Some d'" by simp
    then have "settings d' = settings d1" by (rule IH)
    with s1 show ?thesis by simp
  next
    case False
    with eq rd have "d' = d1" by simp
    with s1 show ?thesis by simp
  qed
qed

lemma settings_upload_firmware:
  assumes "upload_firmware p ctx idx d = Some (r, d')"
  shows "settings d' = (if r = SR_OK then settings (d\<lparr>cur_firmware := idx\<rparr>) else settings d)"
proof (cases "cur_firmware d = idx")
  case True
  with assms show ?thesis
    by (auto simp add: upload_firmware_def settings_def)
next
  case False
  obtain r1 f1 where b1: "ftdi_set_bitmode (ftdic d) BB_PINMASK BITMODE_BITBANG = (r1, f1)"
    by (cases "ftdi_set_bitmode (ftdic d) BB_PINMASK BITMODE_BITBANG")
  obtain r2 f2 where b2: "ftdi_set_baudrate f1 BB_BITRATE = (r2, f2)"
    by (cases "ftdi_set_baudrate f1 BB_BITRATE")
  obtain r3 d3 where b3: "sigma_fpga_init_bitbang (uninit ctx) (d\<lparr>ftdic := f2\<rparr>) = (r3, d3)"
    by (cases "sigma_fpga_init_bitbang (uninit ctx) (d\<lparr>ftdic := f2\<rparr>)")
  have s3: "settings d3 = settings d"
    using settings_init_bitbang [OF b3] by simp
  show ?thesis
  proof (cases "r1 < 0 \<or> r2 < 0 \<or> r3 \<noteq> SR_OK")
    case True
    with assms False b1 b2 b3 s3 show ?thesis
      by (auto simp add: upload_firmware_def Let_def split: if_splits)
  next
    case ok: False
    show ?thesis
    proof (cases "sigma_fw_2_bitbang ctx (firmware_files ! nat idx)")
      case (Inl e)
      with assms False b1 b2 b3 s3 ok show ?thesis
        by (auto simp add: upload_firmware_def Let_def sigma_fw_2_bitbang_def
            split: if_splits option.splits)
    next
      case (Inr buf)
      define d4 where "d4 = snd (sigma_write buf d3)"
      have s4: "settings d4 = settings d"
        by (simp add: d4_def s3)
      obtain r5 f5 where b5: "ftdi_set_bitmode (ftdic d4) 0 BITMODE_RESET = (r5, f5)"
        by (cases "ftdi_set_bitmode (ftdic d4) 0 BITMODE_RESET")
      show ?thesis
      proof (cases "r5 < 0")
        case True
        with assms False b1 b2 b3 ok Inr b5 s4 show ?thesis
          by (auto simp add: upload_firmware_def Let_def d4_def [symmetric])
      next
        case r5: False
        define d6 where "d6 = d4\<lparr>ftdic := snd (ftdi_usb_purge_buffers f5)\<rparr>"
        have s6: "settings d6 = settings d"
          by (simp add: d6_def s4)
        from assms False b1 b2 b3 ok Inr b5 r5
        obtain d7 where b7: "drain_pending [uninit ctx] d6 = Some d7"
          by (auto simp add: upload_firmware_def Let_def d4_def [symmetric] d6_def
              split: option.splits)
        have s7: "settings d7 = settings d"
          using settings_drain_pending [OF b7] s6 by simp
        obtain r8 d8 where b8: "sigma_fpga_init_la p (replicate 3 (uninit ctx)) d7 = (r8, d8)"
          by (cases "sigma_fpga_init_la p (replicate 3 (uninit ctx)) d7")
        have s8: "settings d8 = settings d"
          using settings_init_la [OF b8] s7 by simp
        from assms False b1 b2 b3 ok Inr b5 r5 b7 b8
        have "(r, d') = (if r8 \<noteq> SR_OK then (r8, d8) else (SR_OK, d8\<lparr>cur_firmware := idx\<rparr>))"
          by (auto simp add: upload_firmware_def Let_def d4_def [symmetric] d6_def [symmetric]
              split: if_splits)
        with s8 show ?thesis
          by (auto simp add: settings_def split: if_splits)
      qed
    qed
  qed
qed


lemma find_samplerate_absent:
  assumes "i \<le> samplerates_count"
    and "\<forall>j. i \<le> j \<and> j < samplerates_count \<longrightarrow> samplerates ! j \<noteq> r"
  shows "find_samplerate i r = samplerates_count"
  using assms
proof (induction "samplerates_count - i" arbitrary: i)
  case 0
  then have "i = samplerates_count" by simp
  then show ?case by (subst find_samplerate.simps) simp
next
  case (Suc d)
  then have i: "i < samplerates_count" by simp
  with Suc.prems(2) have "samplerates ! i \<noteq> r" by simp
  moreover have "find_samplerate (i + 1) r = samplerates_count"
    using Suc.hyps(2) i Suc.prems(2) by (intro Suc.hyps(1)) auto
  ultimately show ?case
    by (subst find_samplerate.simps) (simp add: i)
qed

lemma find_samplerate_found:
  "find_samplerate i r < samplerates_count \<Longrightarrow> samplerates ! find_samplerate i r = r"
proof (induction i r rule: find_samplerate.induct)
  case (1 i r)
  show ?case
  proof (cases "i < samplerates_count \<and> samplerates ! i \<noteq> r")
    case True
    then have e: "find_samplerate i r = find_samplerate (i + 1) r"
      by (subst find_samplerate.simps) simp
    with "1.prems" have "find_samplerate (i + 1) r < samplerates_count" by simp
    with True have "samplerates ! find_samplerate (i + 1) r = r"
      by (intro "1.IH") simp_all
    with e show ?thesis by simp
  next
    case False
    then have e: "find_samplerate i r = i"
      by (subst find_samplerate.simps) auto
    with "1.prems" False show ?thesis by simp
  qed
qed

lemma firmware_rate_cases:
  assumes "r \<in> set samplerates"
  shows "r \<le> SR_MHZ 50 \<or> (\<not> r \<le> SR_MHZ 50 \<and> r = SR_MHZ 100) \<or>
         (\<not> r \<le> SR_MHZ 50 \<and> r \<noteq> SR_MHZ 100 \<and> r = SR_MHZ 200)"
  using assms unfolding samplerates_cases by (auto simp add: SR_MHZ_def)


lemma find_samplerate_le:
  assumes "i \<le> j" and "j < samplerates_count" and "samplerates ! j = r"
  shows "find_samplerate i r \<le> j"
  using assms
proof (induction "j - i" arbitrary: i)
  case 0
  then have "i = j" by simp
  with 0 show ?case by (subst find_samplerate.simps) simp
next
  case (Suc d)
  then have i: "i < j" by simp
  show ?case
  proof (cases "samplerates ! i = r")
    case True
    with i Suc.prems(2) show ?thesis
      by (subst find_samplerate.simps) simp
  next
    case False
    have "find_samplerate (i + 1) r \<le> j"
      using Suc.hyps(2) i Suc.prems(2,3) by (intro Suc.hyps(1)) auto
    with False i Suc.prems(2) show ?thesis
      by (subst find_samplerate.simps) simp
  qed
qed

lemma find_samplerate_in_table:
  assumes "r \<in> set samplerates"
  shows "find_samplerate 0 r < samplerates_count \<and> samplerates ! find_samplerate 0 r = r \<and> r \<noteq> 0"
proof -
  from assms obtain j where j: "j < length samplerates" "samplerates ! j = r"
    by (auto simp add: in_set_conv_nth)
  then have "find_samplerate 0 r \<le> j"
    by (intro find_samplerate_le) (simp_all add: samplerates_count_def)
  with j have lt: "find_samplerate 0 r < samplerates_count"
    by (simp add: samplerates_count_def)
  moreover have "r \<noteq> 0"
    using assms unfolding samplerates_cases by auto
  ultimately show ?thesis
    by (simp add: find_samplerate_found)
qed

lemma set_samplerate_rejects:
  assumes "r \<notin> set samplerates"
  shows "sigma_set_samplerate p ctx r devc = Some (SR_ERR_SAMPLERATE, devc)"
proof -
  have "\<forall>j. 0 \<le> j \<and> j < samplerates_count \<longrightarrow> samplerates ! j \<noteq> r"
    using assms by (auto simp add: samplerates_count_def)
  then have "find_samplerate 0 r = samplerates_count"
    by (intro find_samplerate_absent) simp_all
  then show ?thesis
    by (simp add: sigma_set_samplerate_def)
qed

lemma set_samplerate_in_table:
  assumes "r \<in> set samplerates"
    and "sigma_set_samplerate p ctx r devc = Some (ret, devc')"
    and "nch = (if r \<le> SR_MHZ 50 then 16 else if r = SR_MHZ 100 then 8 else 4)"
  shows "\<exists>idx d1. upload_firmware p ctx idx devc = Some (ret, d1) \<and>
           (ret \<noteq> SR_OK \<longrightarrow> devc' = d1) \<and>
           (ret = SR_OK \<longrightarrow>
              (\<exists>lm. devc' = d1\<lparr>num_channels := nch, cur_samplerate := r,
                                samples_per_event := 16 div nch,
                                state := (state d1)\<lparr>st := SIGMA_IDLE\<rparr>,
                                limit_msec := lm\<rparr>))"
proof -
  note t = find_samplerate_in_table [OF assms(1)]
  define idx :: int where
    "idx = (if r \<le> SR_MHZ 50 then 0 else if r = SR_MHZ 100 then 1 else 2)"
  have sel: "(if r \<le> SR_MHZ 50 then
                map_option (\<lambda>x. (x, 16)) (upload_firmware p ctx 0 devc)
              else if r = SR_MHZ 100 then
                map_option (\<lambda>x. (x, 8)) (upload_firmware p ctx 1 devc)
              else if r = SR_MHZ 200 then
                map_option (\<lambda>x. (x, 4)) (upload_firmware p ctx 2 devc)
              else Some ((SR_OK, devc), num_channels devc)) =
             map_option (\<lambda>x. (x, nch)) (upload_firmware p ctx idx devc)"
    using firmware_rate_cases [OF assms(1)] by (auto simp add: idx_def assms(3))
  from assms(2) t obtain d1 where
    u: "upload_firmware p ctx idx devc = Some (ret, d1)" and
    d: "devc' =
          (let devc = (if ret = SR_OK then
                         d1\<lparr>num_channels := nch, cur_samplerate := r,
                            samples_per_event := 16 div nch,
                            state := (state d1)\<lparr>st := SIGMA_IDLE\<rparr>\<rparr>
                       else d1)
           in if ret = SR_OK \<and> limit_samples devc \<noteq> 0 then
                devc\<lparr>limit_msec := sigma_limit_samples_to_msec devc (limit_samples devc)\<rparr>
              else devc)"
    unfolding sigma_set_samplerate_def Let_def sel
    by (auto split: option.splits prod.splits if_splits)
  have a: "ret \<noteq> SR_OK \<longrightarrow> devc' = d1"
    using d by simp
  have b: "ret = SR_OK \<longrightarrow>
             (\<exists>lm. devc' = d1\<lparr>num_channels := nch, cur_samplerate := r,
                                samples_per_event := 16 div nch,
                                state := (state d1)\<lparr>st := SIGMA_IDLE\<rparr>,
                                limit_msec := lm\<rparr>)"
  proof (cases "limit_samples d1 = 0")
    case True
    with d show ?thesis
      by (intro impI exI [of _ "limit_msec d1"]) (simp add: Let_def)
  next
    case False
    with d show ?thesis
      by (auto simp add: Let_def)
  qed
  from u a b show ?thesis by blast
qed

text \<open>
  C4, as the code has it: for every requested rate \<open>r\<close>, when \<open>r\<close> is not in the table
  \<^verbatim>\<open>sigma_set_samplerate\<close> returns \<^verbatim>\<open>SR_ERR_SAMPLERATE\<close> and the whole device context is
  unchanged; when the call succeeds, \<open>r\<close> is in the table, \<^verbatim>\<open>cur_samplerate\<close> is \<open>r\<close>,
  \<^verbatim>\<open>num_channels\<close> is 16 for \<open>r\<close> up to 50 MHz, 8 for 100 MHz and 4 for 200 MHz,
  \<^verbatim>\<open>samples_per_event\<close> is \<open>16 div num_channels\<close> and the state is idle; when the call
  fails, \<^verbatim>\<open>cur_samplerate\<close>, \<^verbatim>\<open>num_channels\<close>, \<^verbatim>\<open>samples_per_event\<close>, the state,
  \<^verbatim>\<open>limit_msec\<close> and \<^verbatim>\<open>cur_firmware\<close> are as before the call, so that \<^verbatim>\<open>cur_samplerate\<close>
  is \<open>r\<close> afterwards only if it was before.
\<close>

theorem set_samplerate_outcome:
  "(samplerate \<notin> set samplerates \<longrightarrow>
      sigma_set_samplerate p ctx samplerate devc = Some (SR_ERR_SAMPLERATE, devc)) \<and>
   (sigma_set_samplerate p ctx samplerate devc = Some (SR_OK, devc') \<longrightarrow>
      samplerate \<in> set samplerates \<and> cur_samplerate devc' = samplerate \<and>
      num_channels devc' =
        (if samplerate \<le> SR_MHZ 50 then 16 else if samplerate = SR_MHZ 100 then 8 else 4) \<and>
      samples_per_event devc' = 16 div num_channels devc' \<and>
      st (state devc') = SIGMA_IDLE) \<and>
   (sigma_set_samplerate p ctx samplerate devc = Some (ret, devc'') \<and> ret \<noteq> SR_OK \<longrightarrow>
      cur_samplerate devc'' = cur_samplerate devc \<and>
      num_channels devc'' = num_channels devc \<and>
      samples_per_event devc'' = samples_per_event devc \<and>
      state devc'' = state devc \<and>
      limit_msec devc'' = limit_msec devc \<and>
      cur_firmware devc'' = cur_firmware devc)"
proof (intro conjI impI)
  assume "samplerate \<notin> set samplerates"
  then show "sigma_set_samplerate p ctx samplerate devc = Some (SR_ERR_SAMPLERATE, devc)"
    by (rule set_samplerate_rejects)
next
  assume ok: "sigma_set_samplerate p ctx samplerate devc = Some (SR_OK, devc')"
  show in_table: "samplerate \<in> set samplerates"
  proof (rule ccontr)
    assume "samplerate \<notin> set samplerates"
    from set_samplerate_rejects [OF this, of p ctx devc] ok show False by simp
  qed
  from set_samplerate_in_table [OF in_table ok refl]
  obtain d1 lm where
    d: "devc' = d1\<lparr>num_channels :=
                      (if samplerate \<le> SR_MHZ 50 then 16
                       else if samplerate = SR_MHZ 100 then 8 else 4),
                    cur_samplerate := samplerate,
                    samples_per_event := 16 div
                      (if samplerate \<le> SR_MHZ 50 then 16
                       else if samplerate = SR_MHZ 100 then 8 else 4),
                    state := (state d1)\<lparr>st := SIGMA_IDLE\<rparr>,
                    limit_msec := lm\<rparr>"
    by auto
  show "cur_samplerate devc' = samplerate"
    by (simp add: d)
  show n: "num_channels devc' =
        (if samplerate \<le> SR_MHZ 50 then 16 else if samplerate = SR_MHZ 100 then 8 else 4)"
    by (simp add: d)
  show "samples_per_event devc' = 16 div num_channels devc'"
    unfolding n by (simp add: d)
  show "st (state devc') = SIGMA_IDLE"
    by (simp add: d)
next
  assume "sigma_set_samplerate p ctx samplerate devc = Some (ret, devc'') \<and> ret \<noteq> SR_OK"
  then have f: "sigma_set_samplerate p ctx samplerate devc = Some (ret, devc'')"
    and ret: "ret \<noteq> SR_OK" by simp_all
  have "settings devc'' = settings devc"
  proof (cases "samplerate \<in> set samplerates")
    case True
    from set_samplerate_in_table [OF True f refl] ret
    obtain idx where "upload_firmware p ctx idx devc = Some (ret, devc'')"
      by auto
    from settings_upload_firmware [OF this] ret show ?thesis by simp
  next
    case False
    from set_samplerate_rejects [OF this, of p ctx devc] f show ?thesis by simp
  qed
  then show "cur_samplerate devc'' = cur_samplerate devc"
    and "num_channels devc'' = num_channels devc"
    and "samples_per_event devc'' = samples_per_event devc"
    and "state devc'' = state devc"
    and "limit_msec devc'' = limit_msec devc"
    and "cur_firmware devc'' = cur_firmware devc"
    by (simp_all add: settings_def)
qed



lemma init_b_loop_10:
  "init_b_loop 10 data devc =
     (case sigma_read [data] 1 devc of
        (ret, buf, devc') \<Rightarrow>
          if ret < 0 then (FTDI_CODE ret, devc')
          else if hd buf AND BB_PIN_INIT \<noteq> 0 then (SR_OK, devc')
          else init_b_loop 9 (hd buf) devc')"
proof -
  have "(10::nat) = Suc 9" by simp
  then show ?thesis by (simp only: init_b_loop.simps)
qed

lemma upload_on_willing_cable:
  "\<exists>d. upload_firmware plain_protocol two_byte_ctx 0 (scanned_devc willing_cable) =
          Some (SR_OK, d)"
  apply (simp add: upload_firmware_def scanned_devc_def willing_cable_def ftdi_set_bitmode_def
        ftdi_set_baudrate_def ftdi_usb_purge_buffers_def ftdi_call_status_def Let_def
        sigma_fpga_init_bitbang_def sigma_write_def sigma_read_def ftdi_write_data_def
        ftdi_read_data_def init_b_loop_10 BB_PIN_INIT_def firmware_files_def
        sigma_fw_2_bitbang_def sr_resource_load_def two_byte_ctx_def
        SIGMA_FIRMWARE_SIZE_LIMIT_def)
  apply (subst drain_pending.simps)
  apply (simp add: sigma_read_def ftdi_read_data_def Let_def sigma_fpga_init_la_def
        sigma_write_def ftdi_write_data_def ftdi_call_status_def)
  done


lemma find_samplerate_values:
  "find_samplerate 0 200000 = 0" "find_samplerate 0 1000000 = 3"
  by (simp_all add: find_samplerate.simps samplerates_count_def samplerates_def
      SR_KHZ_def SR_MHZ_def)

text \<open>A successful call through a full firmware upload.\<close>

theorem set_samplerate_outcome_witness:
  "map_option fst (sigma_set_samplerate plain_protocol two_byte_ctx (SR_MHZ 1)
      (scanned_devc willing_cable)) = Some SR_OK \<and>
   map_option (cur_samplerate \<circ> snd) (sigma_set_samplerate plain_protocol two_byte_ctx (SR_MHZ 1)
      (scanned_devc willing_cable)) = Some (SR_MHZ 1) \<and>
   map_option (num_channels \<circ> snd) (sigma_set_samplerate plain_protocol two_byte_ctx (SR_MHZ 1)
      (scanned_devc willing_cable)) = Some 16 \<and>
   map_option (samples_per_event \<circ> snd) (sigma_set_samplerate plain_protocol two_byte_ctx
      (SR_MHZ 1) (scanned_devc willing_cable)) = Some 1 \<and>
   map_option (st \<circ> state \<circ> snd) (sigma_set_samplerate plain_protocol two_byte_ctx
      (SR_MHZ 1) (scanned_devc willing_cable)) = Some SIGMA_IDLE"
proof -
  from upload_on_willing_cable obtain d0 where
    "upload_firmware plain_protocol two_byte_ctx 0 (scanned_devc willing_cable) = Some (SR_OK, d0)"
    by blast
  then have "\<exists>d. sigma_set_samplerate plain_protocol two_byte_ctx (SR_MHZ 1)
      (scanned_devc willing_cable) = Some (SR_OK, d)"
    by (simp add: sigma_set_samplerate_def find_samplerate_values samplerates_count_def
        samplerates_def SR_KHZ_def SR_MHZ_def Let_def)
  then obtain d where s: "sigma_set_samplerate plain_protocol two_byte_ctx (SR_MHZ 1)
      (scanned_devc willing_cable) = Some (SR_OK, d)"
    by blast
  from set_samplerate_outcome [of "SR_MHZ 1" plain_protocol two_byte_ctx
      "scanned_devc willing_cable" d, THEN conjunct2, THEN conjunct1, rule_format, OF s]
  show ?thesis
    unfolding s by (simp add: SR_MHZ_def)
qed

text \<open>A context at 200 kHz whose cable fails: the call for 200 kHz fails, and
  \<^verbatim>\<open>cur_samplerate\<close> is 200 kHz after it.\<close>

theorem set_samplerate_failed_counterexample:
  "SR_KHZ 200 \<in> set samplerates \<and>
   sigma_set_samplerate plain_protocol two_byte_ctx (SR_KHZ 200) (scanned_devc dead_cable) =
     Some (SR_ERR,
           scanned_devc (dead_cable\<lparr>calls := [FTDI_SET_BITMODE BB_PINMASK BITMODE_BITBANG]\<rparr>)) \<and>
   cur_samplerate
     (scanned_devc (dead_cable\<lparr>calls := [FTDI_SET_BITMODE BB_PINMASK BITMODE_BITBANG]\<rparr>)) =
     SR_KHZ 200"
proof -
  have "upload_firmware plain_protocol two_byte_ctx 0 (scanned_devc dead_cable) =
          Some (SR_ERR,
            scanned_devc (dead_cable\<lparr>calls := [FTDI_SET_BITMODE BB_PINMASK BITMODE_BITBANG]\<rparr>))"
    by (simp add: upload_firmware_def scanned_devc_def dead_cable_def ftdi_set_bitmode_def
        ftdi_call_status_def Let_def)
  then have "sigma_set_samplerate plain_protocol two_byte_ctx (SR_KHZ 200) (scanned_devc dead_cable) =
     Some (SR_ERR,
           scanned_devc (dead_cable\<lparr>calls := [FTDI_SET_BITMODE BB_PINMASK BITMODE_BITBANG]\<rparr>))"
    by (simp add: sigma_set_samplerate_def find_samplerate_values samplerates_count_def
        samplerates_def SR_KHZ_def SR_MHZ_def)
  then show ?thesis
    by (simp add: scanned_devc_def samplerates_cases SR_KHZ_def)
qed


end
